theory Spec2Isabelle
  imports Complex_Main "HOL-Library.Sublist" "HOL-Library.Log_Nat"
begin

section \<open>Turn Ledger (useLogStore in lib/state.ts, transcript handlers of useLiveApi)\<close>

text \<open>
  \<^verbatim>\<open>ConversationTurn\<close> of lib/state.ts. The timestamp is the value of
  \<^verbatim>\<open>new Date()\<close> at the call of \<^verbatim>\<open>addTurn\<close>, read from the environment and
  passed as a number. Optional fields are options. The field \<^verbatim>\<open>text\<close> is named
  \<open>turn_text\<close>.
\<close>

datatype role = user | agent | system

text \<open>
  A function call of a tool-call event. The argument object is kept as its JSON text, the
  value of \<^verbatim>\<open>JSON.stringify(fc.args, null, 2)\<close>.
\<close>

record FunctionCallReq =
  fc_id :: string
  fc_name :: string
  fc_args :: string

record GroundingChunk =
  uri :: string
  title :: string

record Attachment =
  att_name :: string
  att_type :: string
  dataUrl :: string

record ConversationTurn =
  timestamp :: nat
  role :: role
  turn_text :: string
  isFinal :: bool
  toolUseRequest :: "FunctionCallReq list option"
  groundingChunks :: "GroundingChunk list option"
  attachments :: "Attachment list option"
  isPromo :: "bool option"

text \<open>\<^verbatim>\<open>Partial<ConversationTurn>\<close> as the handlers build it: the keys that are present.\<close>

record TurnUpdate =
  upd_text :: "string option"
  upd_isFinal :: "bool option"
  upd_groundingChunks :: "GroundingChunk list option"

definition spread :: "ConversationTurn \<Rightarrow> TurnUpdate \<Rightarrow> ConversationTurn" where
  "spread t u =
     t\<lparr>turn_text := (case upd_text u of None \<Rightarrow> turn_text t | Some s \<Rightarrow> s),
       isFinal := (case upd_isFinal u of None \<Rightarrow> isFinal t | Some b \<Rightarrow> b),
       groundingChunks :=
         (case upd_groundingChunks u of None \<Rightarrow> groundingChunks t | Some g \<Rightarrow> Some g)\<rparr>"

definition addTurn :: "nat \<Rightarrow> ConversationTurn \<Rightarrow> ConversationTurn list \<Rightarrow> ConversationTurn list" where
  "addTurn now turn turns = turns @ [turn\<lparr>timestamp := now\<rparr>]"

definition updateLastTurn :: "TurnUpdate \<Rightarrow> ConversationTurn list \<Rightarrow> ConversationTurn list" where
  "updateLastTurn u turns =
     (if length turns = 0 then turns
      else turns[length turns - 1 := spread (turns ! (length turns - 1)) u])"

definition newTurn :: "role \<Rightarrow> string \<Rightarrow> bool \<Rightarrow> ConversationTurn" where
  "newTurn r s f =
     \<lparr>timestamp = 0, role = r, turn_text = s, isFinal = f, toolUseRequest = None,
      groundingChunks = None, attachments = None, isPromo = None\<rparr>"

text \<open>\<^verbatim>\<open>turns[turns.length - 1]\<close>: undefined on the empty ledger.\<close>

definition lastTurn :: "ConversationTurn list \<Rightarrow> ConversationTurn option" where
  "lastTurn turns = (if turns = [] then None else Some (turns ! (length turns - 1)))"

definition handleInputTranscription ::
  "nat \<Rightarrow> string \<Rightarrow> bool \<Rightarrow> ConversationTurn list \<Rightarrow> ConversationTurn list" where
  "handleInputTranscription now s f turns =
     (case lastTurn turns of
        Some l \<Rightarrow>
          if role l = user \<and> \<not> isFinal l
          then updateLastTurn
                 \<lparr>upd_text = Some (turn_text l @ s), upd_isFinal = Some f,
                  upd_groundingChunks = None\<rparr> turns
          else addTurn now (newTurn user s f) turns
      | None \<Rightarrow> addTurn now (newTurn user s f) turns)"

definition handleOutputTranscription ::
  "nat \<Rightarrow> string \<Rightarrow> bool \<Rightarrow> ConversationTurn list \<Rightarrow> ConversationTurn list" where
  "handleOutputTranscription now s f turns =
     (case lastTurn turns of
        Some l \<Rightarrow>
          if role l = agent \<and> \<not> isFinal l
          then updateLastTurn
                 \<lparr>upd_text = Some (turn_text l @ s), upd_isFinal = Some f,
                  upd_groundingChunks = None\<rparr> turns
          else addTurn now (newTurn agent s f) turns
      | None \<Rightarrow> addTurn now (newTurn agent s f) turns)"

text \<open>
  \<^verbatim>\<open>handleContent\<close>. The server content carries the parts of the model turn (the
  \<^verbatim>\<open>text\<close> of a part may be absent) and the raw grounding chunks (each with an
  optional \<^verbatim>\<open>web\<close> holding an optional \<^verbatim>\<open>uri\<close> and \<^verbatim>\<open>title\<close>).
\<close>

record RawChunk =
  web_uri :: "string option"
  web_title :: "string option"

record LiveServerContent =
  parts :: "string option list option"
  rawGroundingChunks :: "RawChunk option list option"

fun join :: "string \<Rightarrow> string list \<Rightarrow> string" where
  "join sep [] = []"
| "join sep [x] = x"
| "join sep (x # y # ys) = x @ sep @ join sep (y # ys)"

definition truthy :: "string option \<Rightarrow> bool" where
  "truthy v = (case v of None \<Rightarrow> False | Some s \<Rightarrow> s \<noteq> [])"

definition contentText :: "LiveServerContent \<Rightarrow> string" where
  "contentText c =
     (case parts c of
        None \<Rightarrow> []
      | Some ps \<Rightarrow> join '' '' (map the (filter truthy ps)))"

definition chunkUri :: "RawChunk option \<Rightarrow> string option" where
  "chunkUri c = (case c of None \<Rightarrow> None | Some w \<Rightarrow> web_uri w)"

definition toChunk :: "RawChunk option \<Rightarrow> GroundingChunk" where
  "toChunk c =
     (let w = the c; u = the (web_uri w)
      in \<lparr>uri = u, title = (if truthy (web_title w) then the (web_title w) else u)\<rparr>)"

definition contentChunks :: "LiveServerContent \<Rightarrow> GroundingChunk list option" where
  "contentChunks c =
     (case rawGroundingChunks c of
        None \<Rightarrow> None
      | Some raw \<Rightarrow> Some (map toChunk (filter (\<lambda>x. truthy (chunkUri x)) raw)))"

definition noChunks :: "GroundingChunk list option \<Rightarrow> bool" where
  "noChunks g = (case g of None \<Rightarrow> True | Some cs \<Rightarrow> length cs = 0)"

definition handleContent ::
  "nat \<Rightarrow> LiveServerContent \<Rightarrow> ConversationTurn list \<Rightarrow> ConversationTurn list" where
  "handleContent now c turns =
     (let s = contentText c; g = contentChunks c in
      if s = [] \<and> noChunks g then turns
      else
        (case lastTurn turns of
           Some l \<Rightarrow>
             if role l = agent \<and> \<not> isFinal l
             then updateLastTurn
                    \<lparr>upd_text = Some (turn_text l @ s), upd_isFinal = None,
                     upd_groundingChunks =
                       (if noChunks g then None
                        else Some ((case groundingChunks l of None \<Rightarrow> [] | Some old \<Rightarrow> old)
                                   @ the g))\<rparr> turns
             else addTurn now ((newTurn agent s False)\<lparr>groundingChunks := g\<rparr>) turns
         | None \<Rightarrow> addTurn now ((newTurn agent s False)\<lparr>groundingChunks := g\<rparr>) turns))"

text \<open>The ledger part of \<^verbatim>\<open>handleTurnComplete\<close>: only the last turn is looked at.\<close>

definition handleTurnComplete :: "ConversationTurn list \<Rightarrow> ConversationTurn list" where
  "handleTurnComplete turns =
     (case lastTurn turns of
        Some l \<Rightarrow>
          if \<not> isFinal l
          then updateLastTurn
                 \<lparr>upd_text = None, upd_isFinal = Some True, upd_groundingChunks = None\<rparr> turns
          else turns
      | None \<Rightarrow> turns)"

text \<open>
  The transport events that reach the ledger, each with the clock reading at its
  delivery, and the ledger after a sequence of them, in order of arrival.
\<close>

datatype ledger_event =
    InputTranscription string bool
  | OutputTranscription string bool
  | Content LiveServerContent
  | TurnComplete

fun ledger_step :: "ConversationTurn list \<Rightarrow> nat \<times> ledger_event \<Rightarrow> ConversationTurn list" where
  "ledger_step turns (now, InputTranscription s f) = handleInputTranscription now s f turns"
| "ledger_step turns (now, OutputTranscription s f) = handleOutputTranscription now s f turns"
| "ledger_step turns (now, Content c) = handleContent now c turns"
| "ledger_step turns (now, TurnComplete) = handleTurnComplete turns"

definition ledger_run :: "(nat \<times> ledger_event) list \<Rightarrow> ConversationTurn list \<Rightarrow> ConversationTurn list" where
  "ledger_run evs turns = foldl ledger_step turns evs"

definition open_turns :: "ConversationTurn list \<Rightarrow> ConversationTurn list" where
  "open_turns turns = filter (\<lambda>t. \<not> isFinal t) turns"

definition open_turns_of :: "role \<Rightarrow> ConversationTurn list \<Rightarrow> ConversationTurn list" where
  "open_turns_of r turns = filter (\<lambda>t. role t = r \<and> \<not> isFinal t) turns"

text \<open>No two neighbouring turns of the ledger are both open with the same role.\<close>

fun neighbours_ok :: "ConversationTurn list \<Rightarrow> bool" where
  "neighbours_ok [] = True"
| "neighbours_ok [t] = True"
| "neighbours_ok (t # t' # ts) =
     ((isFinal t \<or> isFinal t' \<or> role t \<noteq> role t') \<and> neighbours_ok (t' # ts))"

text \<open>The last turn of the ledger is open and of the given role.\<close>

definition open_last :: "role \<Rightarrow> ConversationTurn list \<Rightarrow> bool" where
  "open_last r turns =
     (case lastTurn turns of None \<Rightarrow> False | Some l \<Rightarrow> role l = r \<and> \<not> isFinal l)"

text \<open>A content delta with no text and no citations.\<close>

definition empty_content :: "LiveServerContent \<Rightarrow> bool" where
  "empty_content c = (contentText c = [] \<and> noChunks (contentChunks c))"

text \<open>Deltas of one stream, as (clock, text, isFinal), and the text they carry.\<close>

definition input_deltas :: "(nat \<times> string \<times> bool) list \<Rightarrow> (nat \<times> ledger_event) list" where
  "input_deltas ds = map (\<lambda>(now, s, f). (now, InputTranscription s f)) ds"

definition output_deltas :: "(nat \<times> string \<times> bool) list \<Rightarrow> (nat \<times> ledger_event) list" where
  "output_deltas ds = map (\<lambda>(now, s, f). (now, OutputTranscription s f)) ds"

definition delta_text :: "(nat \<times> string \<times> bool) list \<Rightarrow> string" where
  "delta_text ds = concat (map (\<lambda>(now, s, f). s) ds)"

definition delta_final :: "nat \<times> string \<times> bool \<Rightarrow> bool" where
  "delta_final d = snd (snd d)"

definition texts :: "ConversationTurn list \<Rightarrow> string" where
  "texts turns = concat (map turn_text turns)"

section \<open>Background Task Tracker (useTaskStore in lib/state.ts)\<close>

datatype task_status = running | completed | failed

datatype result_type = download | view

record TaskResult =
  res_type :: result_type
  payload :: string

subsection \<open>JavaScript numbers\<close>

text \<open>
  A JavaScript number is an IEEE 754 binary64 value and every arithmetic operation gives
  the exact result rounded to the nearest such value, ties to the even significand.
  \<open>fl\<close> is that rounding on the rationals: a value other than zero is scaled by the
  power of two that brings it between \<open>2^52\<close> and \<open>2^53\<close>, rounded to an integer, and
  scaled back. The exponent is not bounded here; binary64 agrees with \<open>fl\<close> on every
  number whose absolute value is between \<open>2^-1022\<close> and \<open>2^1024\<close>, which the numbers of
  the progress computations are (a quotient of two array indices is at least \<open>2^-33\<close>).
\<close>

definition expo :: "rat \<Rightarrow> int" where
  "expo x = (if 1 \<le> x then bitlen \<lfloor>x\<rfloor> - 1 else - bitlen (\<lceil>1 / x\<rceil> - 1))"

definition roundTiesToEven :: "rat \<Rightarrow> int" where
  "roundTiesToEven x =
     (let f = \<lfloor>x\<rfloor>; d = x - of_int f
      in if d < 1 / 2 then f else if 1 / 2 < d then f + 1 else if even f then f else f + 1)"

definition ulp :: "rat \<Rightarrow> rat" where
  "ulp x = 2 powi (expo x - 52)"

definition fl :: "rat \<Rightarrow> rat" where
  "fl x =
     (if x = 0 then 0
      else if x < 0 then - (of_int (roundTiesToEven (- x / ulp (- x))) * ulp (- x))
      else of_int (roundTiesToEven (x / ulp x)) * ulp x)"

text \<open>
  \<^verbatim>\<open>BackgroundTask\<close>. \<^verbatim>\<open>progress\<close> is a JavaScript number, a rational here: the
  video execution computes it with additions of small integers, which are exact, and the
  presentation execution with a division, a multiplication and an addition, each rounded.
\<close>

record BackgroundTask =
  task_id :: string
  task_name :: string
  status :: task_status
  progress :: rat
  message :: string
  result :: "TaskResult option"
  task_timestamp :: nat

record TaskUpdate =
  set_status :: "task_status option"
  set_progress :: "rat option"
  set_message :: "string option"
  set_result :: "TaskResult option"

definition spread_task :: "BackgroundTask \<Rightarrow> TaskUpdate \<Rightarrow> BackgroundTask" where
  "spread_task t u =
     t\<lparr>status := (case set_status u of None \<Rightarrow> status t | Some s \<Rightarrow> s),
       progress := (case set_progress u of None \<Rightarrow> progress t | Some p \<Rightarrow> p),
       message := (case set_message u of None \<Rightarrow> message t | Some m \<Rightarrow> m),
       result := (case set_result u of None \<Rightarrow> result t | Some r \<Rightarrow> Some r)\<rparr>"

text \<open>
  \<^verbatim>\<open>addTask\<close> draws the id from the clock and the random generator and returns it; the
  id and the clock reading are arguments here.
\<close>

definition addTask :: "string \<Rightarrow> nat \<Rightarrow> BackgroundTask \<Rightarrow> BackgroundTask list \<Rightarrow> BackgroundTask list" where
  "addTask tid now task tasks = task\<lparr>task_id := tid, task_timestamp := now\<rparr> # tasks"

definition updateTask :: "string \<Rightarrow> TaskUpdate \<Rightarrow> BackgroundTask list \<Rightarrow> BackgroundTask list" where
  "updateTask tid u tasks = map (\<lambda>t. if task_id t = tid then spread_task t u else t) tasks"

definition removeTask :: "string \<Rightarrow> BackgroundTask list \<Rightarrow> BackgroundTask list" where
  "removeTask tid tasks = filter (\<lambda>t. task_id t \<noteq> tid) tasks"

definition clearCompletedTasks :: "BackgroundTask list \<Rightarrow> BackgroundTask list" where
  "clearCompletedTasks tasks = filter (\<lambda>t. status t = running) tasks"

definition newTask :: "string \<Rightarrow> rat \<Rightarrow> string \<Rightarrow> BackgroundTask" where
  "newTask n p m =
     \<lparr>task_id = [], task_name = n, status = running, progress = p, message = m,
      result = None, task_timestamp = 0\<rparr>"

definition progress_update :: "rat \<Rightarrow> string \<Rightarrow> TaskUpdate" where
  "progress_update p m =
     \<lparr>set_status = None, set_progress = Some p, set_message = Some m, set_result = None\<rparr>"

definition failed_update :: "string \<Rightarrow> TaskUpdate" where
  "failed_update m =
     \<lparr>set_status = Some failed, set_progress = None, set_message = Some m, set_result = None\<rparr>"

definition completed_update :: "string \<Rightarrow> TaskResult \<Rightarrow> TaskUpdate" where
  "completed_update m r =
     \<lparr>set_status = Some completed, set_progress = Some 100, set_message = Some m,
      set_result = Some r\<rparr>"

subsection \<open>executeVideoGenerationTool: the detached polling process\<close>

text \<open>
  What the environment decides: how many times the loop body runs to its end, and how the
  process leaves the \<^verbatim>\<open>try\<close> block: the operation is done (with or without a
  download link), or a call threw (before the loop, or in the loop before that iteration's
  update) with the given message.
\<close>

datatype video_end = VideoDone "string option" | VideoThrew string

definition video_start :: "string \<Rightarrow> nat \<Rightarrow> BackgroundTask list \<Rightarrow> BackgroundTask list" where
  "video_start tid now tasks =
     addTask tid now (newTask ''generate_video'' 5 ''Starting video generation...'') tasks"

fun video_poll :: "rat \<Rightarrow> nat \<Rightarrow> TaskUpdate list" where
  "video_poll p 0 = []"
| "video_poll p (Suc n) =
     (let p' = min (p + 15) 90
      in progress_update p' ''Processing video...'' # video_poll p' n)"

definition video_final :: "string \<Rightarrow> video_end \<Rightarrow> TaskUpdate" where
  "video_final apiKey e =
     (case e of
        VideoDone link \<Rightarrow>
          if truthy link
          then completed_update ''Video is ready!''
                 \<lparr>res_type = download, payload = the link @ ''&key='' @ apiKey\<rparr>
          else failed_update
                 (''Failed to generate video: '' @
                  ''Video generation finished but no video URL was returned.'')
      | VideoThrew m \<Rightarrow> failed_update (''Failed to generate video: '' @ m))"

definition video_updates :: "string \<Rightarrow> nat \<Rightarrow> video_end \<Rightarrow> TaskUpdate list" where
  "video_updates apiKey polls e = video_poll 10 polls @ [video_final apiKey e]"

subsection \<open>executePresentationGenerationTool: the detached generation process\<close>

text \<open>
  The slides come from the model's JSON answer; their titles are all the updates use.
  The two updates of a slide carry \<^verbatim>\<open>10 + (currentAssetStep / totalAssetSteps) * 80\<close>,
  \<open>asset_progress\<close> below, after \<^verbatim>\<open>currentAssetStep++\<close>.
\<close>

definition asset_progress :: "nat \<Rightarrow> nat \<Rightarrow> rat" where
  "asset_progress totalAssetSteps currentAssetStep =
     fl (10 + fl (fl (of_nat currentAssetStep / of_nat totalAssetSteps) * 80))"

fun asset_updates :: "nat \<Rightarrow> nat \<Rightarrow> string list \<Rightarrow> TaskUpdate list" where
  "asset_updates totalAssetSteps cur [] = []"
| "asset_updates totalAssetSteps cur (s # ss) =
     progress_update (asset_progress totalAssetSteps (cur + 1)) (''Generated image for: '' @ s)
     # progress_update (asset_progress totalAssetSteps (cur + 2))
         (''Generated narration for: '' @ s)
     # asset_updates totalAssetSteps (cur + 2) ss"

definition presentation_steps :: "string \<Rightarrow> string \<Rightarrow> string list \<Rightarrow> TaskUpdate list" where
  "presentation_steps topic videoUrl slides =
     progress_update 10 ''Generating assets...''
     # asset_updates (length slides * 2) 0 slides
     @ [progress_update 95 ''Assembling presentation...'',
        completed_update ''Presentation is ready!''
          \<lparr>res_type = view, payload = topic @ '' '' @ videoUrl\<rparr>]"

text \<open>
  The process either runs to the end of the \<^verbatim>\<open>try\<close> block, or a statement throws
  after \<open>k\<close> of its updates were made (statements after the last update can throw too) and
  the \<^verbatim>\<open>catch\<close> block marks the task failed.
\<close>

datatype presentation_end = PresentationDone | PresentationThrew nat string

definition presentation_start :: "string \<Rightarrow> nat \<Rightarrow> BackgroundTask list \<Rightarrow> BackgroundTask list" where
  "presentation_start tid now tasks =
     addTask tid now
       (newTask ''create_business_presentation'' 0 ''Generating presentation outline...'') tasks"

definition presentation_updates ::
  "string \<Rightarrow> string \<Rightarrow> string list \<Rightarrow> presentation_end \<Rightarrow> TaskUpdate list" where
  "presentation_updates topic videoUrl slides e =
     (case e of
        PresentationDone \<Rightarrow> presentation_steps topic videoUrl slides
      | PresentationThrew k m \<Rightarrow>
          take k (presentation_steps topic videoUrl slides)
          @ [failed_update (''Failed to create presentation: '' @ m)])"

text \<open>
  The store after each update of one execution, and what the tracker shows for the
  execution's task (the first task with its id) in each of them.
\<close>

fun store_history :: "string \<Rightarrow> TaskUpdate list \<Rightarrow> BackgroundTask list \<Rightarrow> BackgroundTask list list" where
  "store_history tid [] tasks = [tasks]"
| "store_history tid (u # us) tasks = tasks # store_history tid us (updateTask tid u tasks)"

definition task_progress :: "string \<Rightarrow> BackgroundTask list \<Rightarrow> rat option" where
  "task_progress tid tasks = map_option progress (find (\<lambda>t. task_id t = tid) tasks)"

definition progress_history :: "string \<Rightarrow> TaskUpdate list \<Rightarrow> BackgroundTask list \<Rightarrow> rat option list" where
  "progress_history tid us tasks = map (task_progress tid) (store_history tid us tasks)"

text \<open>
  The progress values one execution's task goes through, from the value it was created
  with: an update without a \<^verbatim>\<open>progress\<close> key leaves the value as it is.
\<close>

fun progress_values :: "rat \<Rightarrow> TaskUpdate list \<Rightarrow> rat list" where
  "progress_values p [] = [p]"
| "progress_values p (u # us) =
     p # progress_values (case set_progress u of None \<Rightarrow> p | Some q \<Rightarrow> q) us"

definition within_0_100 :: "rat \<Rightarrow> bool" where
  "within_0_100 p = (0 \<le> p \<and> p \<le> 100)"

section \<open>Transport client\<close>

text \<open>
  The class \<^verbatim>\<open>GenAILiveClient\<close> is imported by the hook. Of the client, the model keeps
  its status and the log of the calls made on it: \<^verbatim>\<open>sendRealtimeInput\<close>,
  \<^verbatim>\<open>sendToolResponse\<close> and \<^verbatim>\<open>send\<close>, in the order of the calls.
\<close>

datatype conn_status = st_connected | st_disconnected | st_connecting

record MediaChunk =
  mimeType :: string
  chunk_data :: string

record FunctionResponse =
  fr_id :: string
  fr_name :: string
  fr_result :: string

datatype outbound =
    RealtimeInput "MediaChunk list"
  | ToolResponse "FunctionResponse list"
  | ClientContent string

record LiveClient =
  client_status :: conn_status
  sent :: "outbound list"

definition sendRealtimeInput :: "MediaChunk list \<Rightarrow> LiveClient \<Rightarrow> LiveClient" where
  "sendRealtimeInput chunks c = c\<lparr>sent := sent c @ [RealtimeInput chunks]\<rparr>"

definition sendToolResponse :: "FunctionResponse list \<Rightarrow> LiveClient \<Rightarrow> LiveClient" where
  "sendToolResponse rs c = c\<lparr>sent := sent c @ [ToolResponse rs]\<rparr>"

definition send :: "string \<Rightarrow> LiveClient \<Rightarrow> LiveClient" where
  "send s c = c\<lparr>sent := sent c @ [ClientContent s]\<rparr>"

section \<open>Keep-alive driver (startBackgroundTasks, stopBackgroundTasks)\<close>

text \<open>The browser's \<^verbatim>\<open>btoa\<close>: base64 of a binary string, with padding.\<close>

definition b64 :: "nat \<Rightarrow> char" where
  "b64 n =
     (''ABCDEFGHIJKLMNOPQRSTUVWXYZabcdefghijklmnopqrstuvwxyz0123456789+/'') ! (n mod 64)"

fun btoa :: "string \<Rightarrow> string" where
  "btoa [] = []"
| "btoa [a] =
     (let n = of_char a * 65536
      in [b64 (n div 262144), b64 (n div 4096), CHR ''='', CHR ''=''])"
| "btoa [a, b] =
     (let n = of_char a * 65536 + of_char b * 256
      in [b64 (n div 262144), b64 (n div 4096), b64 (n div 64), CHR ''=''])"
| "btoa (a # b # c # rest) =
     (let n = of_char a * 65536 + of_char b * 256 + of_char c
      in [b64 (n div 262144), b64 (n div 4096), b64 (n div 64), b64 n] @ btoa rest)"

text \<open>\<^verbatim>\<open>new Uint8Array(320)\<close>, turned into a binary string byte by byte.\<close>

definition silentChunk :: "nat list" where
  "silentChunk = replicate 320 0"

definition base64SilentChunk :: string where
  "base64SilentChunk = btoa (map char_of silentChunk)"

definition silentFrame :: MediaChunk where
  "silentFrame = \<lparr>mimeType = ''audio/pcm;rate=16000'', chunk_data = base64SilentChunk\<rparr>"

text \<open>
  The driver: the client and whether \<^verbatim>\<open>keepAliveIntervalRef\<close> holds a running
  interval. \<open>keepAliveCallback\<close> is the function given to \<^verbatim>\<open>setInterval\<close>.
\<close>

record KeepAlive =
  client :: LiveClient
  keepAliveInterval :: bool

definition keepAliveCallback :: "LiveClient \<Rightarrow> LiveClient" where
  "keepAliveCallback c =
     (if client_status c = st_connected then sendRealtimeInput [silentFrame] c else c)"

definition startBackgroundTasks :: "KeepAlive \<Rightarrow> KeepAlive" where
  "startBackgroundTasks k = k\<lparr>keepAliveInterval := True\<rparr>"

definition stopBackgroundTasks :: "KeepAlive \<Rightarrow> KeepAlive" where
  "stopBackgroundTasks k = k\<lparr>keepAliveInterval := False\<rparr>"

text \<open>
  What happens around the driver: the 30-second timer fires, some other component sends
  on the client, the client's status changes, the hook's \<^verbatim>\<open>connected\<close> state
  changes (the effect starts or stops the background tasks).
\<close>

datatype keepalive_event =
    Tick
  | OtherSend outbound
  | StatusChange conn_status
  | SetConnected bool

fun keepalive_step :: "KeepAlive \<Rightarrow> keepalive_event \<Rightarrow> KeepAlive" where
  "keepalive_step k Tick =
     (if keepAliveInterval k then k\<lparr>client := keepAliveCallback (client k)\<rparr> else k)"
| "keepalive_step k (OtherSend out) = k\<lparr>client := (client k)\<lparr>sent := sent (client k) @ [out]\<rparr>\<rparr>"
| "keepalive_step k (StatusChange s) = k\<lparr>client := (client k)\<lparr>client_status := s\<rparr>\<rparr>"
| "keepalive_step k (SetConnected b) =
     (if b then startBackgroundTasks k else stopBackgroundTasks k)"

definition keepalive_run :: "keepalive_event list \<Rightarrow> KeepAlive \<Rightarrow> KeepAlive" where
  "keepalive_run evs k = foldl keepalive_step k evs"

text \<open>An event that is a tick of the timer or a send of another component.\<close>

fun ticks_and_sends :: "keepalive_event \<Rightarrow> bool" where
  "ticks_and_sends Tick = True"
| "ticks_and_sends (OtherSend out) = True"
| "ticks_and_sends (StatusChange s) = False"
| "ticks_and_sends (SetConnected b) = False"

section \<open>pollForResult\<close>

text \<open>
  The callback of the 2-second interval is asynchronous: it issues the status request and
  gives control back; the rest of the callback runs when the request settles. The timer
  fires again whether or not earlier requests have settled. The poller's state is the
  counter, whether the interval is still set, the requests issued and not yet settled, and
  what was issued and emitted so far.
\<close>

record StatusData =
  sd_status :: "string option"
  sd_message :: string

datatype fetch_result =
    FetchThrew
  | NotOk
  | OkJson "StatusData option"

record Poller =
  attempts :: nat
  intervalSet :: bool
  pendingRequests :: nat
  requestsIssued :: nat
  snackbars :: "(string \<times> string) list"
  poll_client :: LiveClient

definition maxAttempts :: nat where
  "maxAttempts = 15"

definition interval :: nat where
  "interval = 2000"

function show_nat :: "nat \<Rightarrow> string" where
  "show_nat n =
     (if n < 10 then [char_of (48 + n)] else show_nat (n div 10) @ [char_of (48 + n mod 10)])"
  by pat_completeness auto
termination
  by (relation "measure (\<lambda>n. n)") auto

definition pollForResult :: "LiveClient \<Rightarrow> Poller" where
  "pollForResult c =
     \<lparr>attempts = 0, intervalSet = True, pendingRequests = 0, requestsIssued = 0,
      snackbars = [], poll_client = c\<rparr>"

definition timeoutMessage :: "string \<Rightarrow> string" where
  "timeoutMessage toolName =
     ''SYSTEM NOTIFICATION: The tool '' @ [CHR 0x27] @ toolName @ [CHR 0x27] @
     '' timed out after '' @ show_nat (maxAttempts * interval div 1000) @
     '' seconds. Please inform the user that the action could not be completed.''"

definition completedMessage :: "string \<Rightarrow> string \<Rightarrow> string \<Rightarrow> string" where
  "completedMessage toolName st msg =
     ''SYSTEM NOTIFICATION: The tool '' @ [CHR 0x27] @ toolName @ [CHR 0x27] @
     '' has completed with status: '' @ st @ ''. The message is: '' @ msg @
     ''. Please inform the user of this result in a natural, conversational way.''"

text \<open>The timer fires: the callback up to its \<^verbatim>\<open>await fetch\<close>.\<close>

definition poll_tick :: "string \<Rightarrow> Poller \<Rightarrow> Poller" where
  "poll_tick toolName p =
     (if \<not> intervalSet p then p
      else if attempts p \<ge> maxAttempts
      then p\<lparr>intervalSet := False,
             snackbars := snackbars p
               @ [(''Tool '' @ [CHR 0x27] @ toolName @ [CHR 0x27] @ '' timed out.'', ''error'')],
             poll_client := send (timeoutMessage toolName) (poll_client p)\<rparr>
      else p\<lparr>pendingRequests := pendingRequests p + 1,
             requestsIssued := requestsIssued p + 1\<rparr>)"

text \<open>A pending request settles: the callback from the \<^verbatim>\<open>await\<close> to its end.\<close>

definition terminal_status :: "fetch_result \<Rightarrow> (string \<times> string) option" where
  "terminal_status r =
     (case r of
        OkJson (Some d) \<Rightarrow>
          if truthy (sd_status d) \<and> the (sd_status d) \<noteq> ''pending''
          then Some (the (sd_status d), sd_message d) else None
      | _ \<Rightarrow> None)"

definition poll_settle :: "string \<Rightarrow> fetch_result \<Rightarrow> Poller \<Rightarrow> Poller" where
  "poll_settle toolName r p =
     (if pendingRequests p = 0 then p
      else
        (let p1 = p\<lparr>pendingRequests := pendingRequests p - 1\<rparr>;
             p2 = (case terminal_status r of
                     Some (st, msg) \<Rightarrow>
                       p1\<lparr>intervalSet := False,
                          snackbars := snackbars p1
                            @ [(''Tool '' @ [CHR 0x27] @ toolName @ [CHR 0x27] @ '' completed: '' @ st,
                                if st = ''success'' then ''success'' else ''error'')],
                          poll_client := send (completedMessage toolName st msg) (poll_client p1)\<rparr>
                   | None \<Rightarrow> p1)
         in p2\<lparr>attempts := attempts p2 + 1\<rparr>))"

datatype poll_event = TimerFires | RequestSettles fetch_result

fun poll_step :: "string \<Rightarrow> Poller \<Rightarrow> poll_event \<Rightarrow> Poller" where
  "poll_step toolName p TimerFires = poll_tick toolName p"
| "poll_step toolName p (RequestSettles r) = poll_settle toolName r p"

definition poll_run :: "string \<Rightarrow> poll_event list \<Rightarrow> Poller \<Rightarrow> Poller" where
  "poll_run toolName evs p = foldl (poll_step toolName) p evs"

text \<open>
  A run in which every request settles before the timer fires again: each firing is
  followed at once by the settling of the request it issued.
\<close>

fun prompt_run :: "fetch_result list \<Rightarrow> poll_event list" where
  "prompt_run [] = []"
| "prompt_run (r # rs) = TimerFires # RequestSettles r # prompt_run rs"

definition notifications :: "Poller \<Rightarrow> outbound list" where
  "notifications p = sent (poll_client p)"

section \<open>Tool dispatcher (onToolCall) and confirmation gate (useUI, ConfirmationModal)\<close>

definition SENSITIVE_TOOLS :: "string list" where
  "SENSITIVE_TOOLS =
     [''place_call'', ''send_gmail_message'', ''send_whatsapp_message'',
      ''send_telegram_message'', ''send_messenger_message'', ''post_to_facebook_page'',
      ''post_on_linkedin'']"

definition NATIVE_GEMINI_TOOLS :: "string list" where
  "NATIVE_GEMINI_TOOLS =
     [''create_presentation_outline'', ''summarize_text'', ''translate_text'',
      ''draft_social_media_post'', ''analyze_sentiment'', ''extract_keywords'',
      ''generate_quiz'', ''write_code_snippet'', ''explain_code_snippet'']"

definition ADMIN_ONLY_TOOLS :: "string list" where
  "ADMIN_ONLY_TOOLS = [''write_code_snippet'', ''generate_video'']"

definition IMAGE_TOOLS :: "string list" where
  "IMAGE_TOOLS = [''generate_image'', ''edit_image'']"

definition ADMIN_EMAIL :: string where
  "ADMIN_EMAIL = ''masterdee@aiteksoftware.site''"

text \<open>The signed-in user (\<^verbatim>\<open>User | null\<close>); the email is optional.\<close>

record User =
  user_id :: string
  email :: "string option"

text \<open>
  The guard of the loop:
  \<^verbatim>\<open>user?.email && ADMIN_ONLY_TOOLS.includes(fc.name) && user.email !== '...'\<close>.
\<close>

definition restricted :: "User option \<Rightarrow> FunctionCallReq \<Rightarrow> bool" where
  "restricted usr fc =
     (case usr of
        None \<Rightarrow> False
      | Some u \<Rightarrow>
          truthy (email u) \<and> fc_name fc \<in> set ADMIN_ONLY_TOOLS \<and> email u \<noteq> Some ADMIN_EMAIL)"

definition restrictedResponse :: "FunctionCallReq \<Rightarrow> FunctionResponse" where
  "restrictedResponse fc =
     \<lparr>fr_id = fc_id fc, fr_name = fc_name fc,
      fr_result = ''I'' @ [CHR 0x27] @ ''m sor'' @ ''ry, the tool '' @ [CHR 0x27] @ fc_name fc @ [CHR 0x27]
                  @ '' is currently restricted to administrators.''\<rparr>"

definition cancelledResponse :: "FunctionCallReq \<Rightarrow> FunctionResponse" where
  "cancelledResponse fc =
     \<lparr>fr_id = fc_id fc, fr_name = fc_name fc, fr_result = ''The user cancelled the action.''\<rparr>"

definition nativeResponse :: "FunctionCallReq \<Rightarrow> FunctionResponse" where
  "nativeResponse fc =
     \<lparr>fr_id = fc_id fc, fr_name = fc_name fc,
      fr_result = ''The request for '' @ [CHR 0x27] @ fc_name fc @ [CHR 0x27]
                  @ '' will be handled directly in my response.''\<rparr>"

text \<open>The branch of \<^verbatim>\<open>executeTool\<close> a tool name takes, in the order of its tests.\<close>

datatype executor =
    SendGmail | SendWhatsApp | CalendarEvent | ImageGeneration | ImageEditing
  | VideoGeneration | PresentationGeneration | DocumentGeneration | NativeGemini | Webhook

definition executor_of :: "string \<Rightarrow> executor" where
  "executor_of n =
     (if n = ''send_gmail_message'' then SendGmail
      else if n = ''send_whatsapp_message'' then SendWhatsApp
      else if n = ''create_calendar_event'' then CalendarEvent
      else if n \<in> set IMAGE_TOOLS
           then (if n = ''generate_image'' then ImageGeneration else ImageEditing)
      else if n = ''generate_video'' then VideoGeneration
      else if n = ''create_business_presentation'' then PresentationGeneration
      else if n = ''create_document'' then DocumentGeneration
      else if n \<in> set NATIVE_GEMINI_TOOLS then NativeGemini
      else Webhook)"

text \<open>
  \<^verbatim>\<open>ConfirmationRequest\<close>. The two continuations are closures made in the loop of
  one tool-call event: \<^verbatim>\<open>onConfirm\<close> is \<^verbatim>\<open>executeTool\<close> of the call and
  \<^verbatim>\<open>onCancel\<close> pushes its cancelled response, both on the array of that event. The
  request records the call and the event they close over.
\<close>

record ConfirmationRequest =
  cr_icon :: "string option"
  cr_title :: string
  cr_prompt :: string
  cr_details :: string
  cr_confirmText :: string
  cr_call :: FunctionCallReq
  cr_event :: nat

record Tool =
  tool_name :: string
  tool_icon :: "string option"

text \<open>
  Every invocation of \<^verbatim>\<open>onToolCall\<close> has an array \<^verbatim>\<open>functionResponses\<close> of its own,
  which the closures it makes keep pushing to, and a batch length
  \<^verbatim>\<open>toolCall.functionCalls.length\<close>.
\<close>

record Batch =
  batchLength :: nat
  functionResponses :: "FunctionResponse list"

text \<open>
  The dispatcher's state: the tool-call events are numbered in order of arrival and
  \<open>arrays\<close> holds the array and the batch length of each; the confirmation slot of the UI
  store; the ledger; the client. \<open>awaiting\<close> holds the calls whose executor has been
  entered and has not returned yet, each with the event it belongs to, and \<open>executed\<close>
  every call \<^verbatim>\<open>executeTool\<close> was invoked for.
\<close>

record Dispatch =
  toolCallEvents :: nat
  arrays :: "nat \<Rightarrow> Batch"
  confirmation :: "ConfirmationRequest option"
  awaiting :: "(nat \<times> FunctionCallReq) list"
  executed :: "FunctionCallReq list"
  ledger :: "ConversationTurn list"
  tool_client :: LiveClient

definition requestConfirmation :: "ConfirmationRequest \<Rightarrow> Dispatch \<Rightarrow> Dispatch" where
  "requestConfirmation config d = d\<lparr>confirmation := Some config\<rparr>"

definition clearConfirmation :: "Dispatch \<Rightarrow> Dispatch" where
  "clearConfirmation d = d\<lparr>confirmation := None\<rparr>"

text \<open>\<^verbatim>\<open>functionResponses.push(r)\<close> on the array of event \<open>ev\<close>.\<close>

definition push :: "nat \<Rightarrow> FunctionResponse \<Rightarrow> Dispatch \<Rightarrow> Dispatch" where
  "push ev r d =
     d\<lparr>arrays := (arrays d)
          (ev := (arrays d ev)\<lparr>functionResponses := functionResponses (arrays d ev) @ [r]\<rparr>)\<rparr>"

text \<open>
  The end of \<^verbatim>\<open>executeTool\<close> and of \<^verbatim>\<open>onCancel\<close>: push the response, and send
  the array when it has reached the length of the batch.
\<close>

definition push_and_send :: "nat \<Rightarrow> FunctionResponse \<Rightarrow> Dispatch \<Rightarrow> Dispatch" where
  "push_and_send ev r d =
     (let d' = push ev r d
      in if length (functionResponses (arrays d' ev)) = batchLength (arrays d' ev)
         then d'\<lparr>tool_client := sendToolResponse (functionResponses (arrays d' ev)) (tool_client d')\<rparr>
         else d')"

text \<open>
  \<^verbatim>\<open>executeTool\<close> up to its first \<^verbatim>\<open>await\<close>. The native branch awaits nothing
  and runs to its end at once; every other branch awaits its executor, whose result
  arrives later.
\<close>

definition executeTool :: "nat \<Rightarrow> FunctionCallReq \<Rightarrow> Dispatch \<Rightarrow> Dispatch" where
  "executeTool ev fc d =
     (let d' = d\<lparr>executed := executed d @ [fc]\<rparr>
      in if executor_of (fc_name fc) = NativeGemini
         then push_and_send ev (nativeResponse fc) d'
         else d'\<lparr>awaiting := awaiting d' @ [(ev, fc)]\<rparr>)"

definition triggerMessage :: "FunctionCallReq \<Rightarrow> string" where
  "triggerMessage fc =
     ''Triggering function call: **'' @ fc_name fc @ ''**'' @ [CHR 0x0A] @ ''```json'' @ [CHR 0x0A]
     @ fc_args fc @ [CHR 0x0A] @ ''```''"

definition find_icon :: "Tool list \<Rightarrow> string \<Rightarrow> string option" where
  "find_icon allTools n =
     (case find (\<lambda>t. tool_name t = n) allTools of None \<Rightarrow> None | Some t \<Rightarrow> tool_icon t)"

text \<open>The request the loop makes for a confirmation-gated call of event \<open>ev\<close>.\<close>

definition confirmationFor :: "Tool list \<Rightarrow> nat \<Rightarrow> FunctionCallReq \<Rightarrow> ConfirmationRequest" where
  "confirmationFor allTools ev fc =
     \<lparr>cr_icon = find_icon allTools (fc_name fc), cr_title = ''Confirm Action'',
      cr_prompt = ''Please confirm you want to execute the action: '' @ fc_name fc,
      cr_details = fc_args fc, cr_confirmText = ''Confirm'', cr_call = fc, cr_event = ev\<rparr>"

text \<open>The body of the loop of \<^verbatim>\<open>onToolCall\<close> for one function call of event \<open>ev\<close>.\<close>

definition dispatch_call ::
  "User option \<Rightarrow> Tool list \<Rightarrow> nat \<Rightarrow> nat \<Rightarrow> Dispatch \<Rightarrow> FunctionCallReq \<Rightarrow> Dispatch" where
  "dispatch_call usr allTools now ev d fc =
     (if restricted usr fc
      then push ev (restrictedResponse fc) d
      else
        (let d' = d\<lparr>ledger :=
                      addTurn now
                        ((newTurn system (triggerMessage fc) True)\<lparr>toolUseRequest := Some [fc]\<rparr>)
                        (ledger d)\<rparr>
         in if fc_name fc \<in> set SENSITIVE_TOOLS
            then requestConfirmation (confirmationFor allTools ev fc) d'
            else executeTool ev fc d'))"

text \<open>
  \<^verbatim>\<open>onToolCall\<close>: a new, empty array for this event, then the loop over the batch.
\<close>

definition onToolCall ::
  "User option \<Rightarrow> Tool list \<Rightarrow> nat \<Rightarrow> FunctionCallReq list \<Rightarrow> Dispatch \<Rightarrow> Dispatch" where
  "onToolCall usr allTools now functionCalls d =
     (let ev = toolCallEvents d
      in foldl (dispatch_call usr allTools now ev)
           (d\<lparr>toolCallEvents := Suc ev,
              arrays := (arrays d)
                (ev := \<lparr>batchLength = length functionCalls, functionResponses = []\<rparr>)\<rparr>)
           functionCalls)"

text \<open>
  What follows the loop: an executor returns its response text for an awaited call
  (every executor answers with the id and the name of its call), the user presses Confirm
  (\<^verbatim>\<open>handleConfirm\<close>), or presses Cancel or closes the modal (\<^verbatim>\<open>handleCancel\<close>).
  The modal renders nothing, so neither button exists, while the slot is empty.
\<close>

datatype dispatch_event = ExecutorReturns nat string | UserConfirms | UserCancels

definition executor_returns :: "nat \<Rightarrow> string \<Rightarrow> Dispatch \<Rightarrow> Dispatch" where
  "executor_returns i res d =
     (if i < length (awaiting d)
      then
        (let ev = fst (awaiting d ! i); fc = snd (awaiting d ! i)
         in push_and_send ev \<lparr>fr_id = fc_id fc, fr_name = fc_name fc, fr_result = res\<rparr>
              (d\<lparr>awaiting := take i (awaiting d) @ drop (Suc i) (awaiting d)\<rparr>))
      else d)"

definition handleConfirm :: "Dispatch \<Rightarrow> Dispatch" where
  "handleConfirm d =
     (case confirmation d of
        None \<Rightarrow> d
      | Some c \<Rightarrow> clearConfirmation (executeTool (cr_event c) (cr_call c) d))"

definition handleCancel :: "Dispatch \<Rightarrow> Dispatch" where
  "handleCancel d =
     (case confirmation d of
        None \<Rightarrow> d
      | Some c \<Rightarrow>
          clearConfirmation (push_and_send (cr_event c) (cancelledResponse (cr_call c)) d))"

fun dispatch_step :: "Dispatch \<Rightarrow> dispatch_event \<Rightarrow> Dispatch" where
  "dispatch_step d (ExecutorReturns i res) = executor_returns i res d"
| "dispatch_step d UserConfirms = handleConfirm d"
| "dispatch_step d UserCancels = handleCancel d"

definition dispatch_run :: "dispatch_event list \<Rightarrow> Dispatch \<Rightarrow> Dispatch" where
  "dispatch_run evs d = foldl dispatch_step d evs"

text \<open>The state before the first tool-call event: nothing pending, nothing sent.\<close>

definition idle :: "ConversationTurn list \<Rightarrow> conn_status \<Rightarrow> Dispatch" where
  "idle turns s =
     \<lparr>toolCallEvents = 0, arrays = (\<lambda>ev. \<lparr>batchLength = 0, functionResponses = []\<rparr>),
      confirmation = None, awaiting = [], executed = [], ledger = turns,
      tool_client = \<lparr>client_status = s, sent = []\<rparr>\<rparr>"

definition toolResponsesSent :: "Dispatch \<Rightarrow> FunctionResponse list list" where
  "toolResponsesSent d =
     concat (map (\<lambda>out. case out of ToolResponse rs \<Rightarrow> [rs] | _ \<Rightarrow> []) (sent (tool_client d)))"





section \<open>Properties of the Turn Ledger\<close>

lemma lastTurn_snoc: "lastTurn (ys @ [l]) = Some l"
  by (simp add: lastTurn_def)

lemma lastTurn_Nil: "lastTurn [] = None"
  by (simp add: lastTurn_def)

lemma updateLastTurn_snoc: "updateLastTurn u (ys @ [l]) = ys @ [spread l u]"
  by (simp add: updateLastTurn_def)

lemma neighbours_ok_snoc2:
  "neighbours_ok (ys @ [a, b]) =
     (neighbours_ok (ys @ [a]) \<and> (isFinal a \<or> isFinal b \<or> role a \<noteq> role b))"
  by (induction ys rule: neighbours_ok.induct) auto

lemma neighbours_ok_replace_last:
  assumes "neighbours_ok (ys @ [l])" and "role l' = role l" and "isFinal l \<Longrightarrow> isFinal l'"
  shows "neighbours_ok (ys @ [l'])"
proof (cases ys rule: rev_cases)
  case Nil
  then show ?thesis by simp
next
  case (snoc zs z)
  with assms show ?thesis
    by (auto simp: neighbours_ok_snoc2)
qed

lemma neighbours_ok_add:
  assumes "neighbours_ok turns"
    and "\<And>l. lastTurn turns = Some l \<Longrightarrow> isFinal l \<or> isFinal t \<or> role l \<noteq> role t"
  shows "neighbours_ok (addTurn now t turns)"
proof (cases turns rule: rev_cases)
  case Nil
  then show ?thesis by (simp add: addTurn_def)
next
  case (snoc ys l)
  have "isFinal l \<or> isFinal t \<or> role l \<noteq> role t"
    using assms(2)[of l] snoc by (simp add: lastTurn_snoc)
  with assms(1) snoc show ?thesis
    by (simp add: addTurn_def neighbours_ok_snoc2)
qed

lemma neighbours_ok_update:
  assumes "neighbours_ok turns" and "lastTurn turns = Some l"
    and "isFinal l \<Longrightarrow> upd_isFinal u \<noteq> Some False"
  shows "neighbours_ok (updateLastTurn u turns)"
proof (cases turns rule: rev_cases)
  case Nil
  then show ?thesis by (simp add: updateLastTurn_def)
next
  case (snoc ys l')
  with assms(2) have l: "l' = l" by (simp add: lastTurn_snoc)
  have r: "role (spread l u) = role l" by (simp add: spread_def)
  have f: "isFinal l \<Longrightarrow> isFinal (spread l u)"
    using assms(3) by (cases "upd_isFinal u") (auto simp: spread_def)
  have "neighbours_ok (ys @ [spread l u])"
    using assms(1) snoc l r f neighbours_ok_replace_last[of ys l "spread l u"] by simp
  with snoc l show ?thesis by (simp add: updateLastTurn_snoc)
qed

lemma neighbours_ok_input:
  assumes "neighbours_ok turns"
  shows "neighbours_ok (handleInputTranscription now s f turns)"
proof (cases "lastTurn turns")
  case None
  have "neighbours_ok (addTurn now (newTurn user s f) turns)"
    using assms None by (intro neighbours_ok_add) simp_all
  with None show ?thesis
    by (simp add: handleInputTranscription_def)
next
  case (Some l)
  show ?thesis
  proof (cases "role l = user \<and> \<not> isFinal l")
    case True
    have "neighbours_ok (updateLastTurn \<lparr>upd_text = Some (turn_text l @ s), upd_isFinal = Some f,
                  upd_groundingChunks = None\<rparr> turns)"
      using assms Some True by (intro neighbours_ok_update[where l = l]) simp_all
    with Some True show ?thesis
      by (simp add: handleInputTranscription_def)
  next
    case False
    have "neighbours_ok (addTurn now (newTurn user s f) turns)"
      using assms Some False by (intro neighbours_ok_add) (auto simp: newTurn_def)
    with Some False show ?thesis
      by (auto simp: handleInputTranscription_def)
  qed
qed

lemma neighbours_ok_output:
  assumes "neighbours_ok turns"
  shows "neighbours_ok (handleOutputTranscription now s f turns)"
proof (cases "lastTurn turns")
  case None
  have "neighbours_ok (addTurn now (newTurn agent s f) turns)"
    using assms None by (intro neighbours_ok_add) simp_all
  with None show ?thesis
    by (simp add: handleOutputTranscription_def)
next
  case (Some l)
  show ?thesis
  proof (cases "role l = agent \<and> \<not> isFinal l")
    case True
    have "neighbours_ok (updateLastTurn \<lparr>upd_text = Some (turn_text l @ s), upd_isFinal = Some f,
                  upd_groundingChunks = None\<rparr> turns)"
      using assms Some True by (intro neighbours_ok_update[where l = l]) simp_all
    with Some True show ?thesis
      by (simp add: handleOutputTranscription_def)
  next
    case False
    have "neighbours_ok (addTurn now (newTurn agent s f) turns)"
      using assms Some False by (intro neighbours_ok_add) (auto simp: newTurn_def)
    with Some False show ?thesis
      by (auto simp: handleOutputTranscription_def)
  qed
qed

lemma neighbours_ok_content:
  assumes "neighbours_ok turns"
  shows "neighbours_ok (handleContent now c turns)"
proof (cases "contentText c = [] \<and> noChunks (contentChunks c)")
  case True
  with assms show ?thesis by (simp add: handleContent_def Let_def)
next
  case False
  define t where "t = (newTurn agent (contentText c) False)\<lparr>groundingChunks := contentChunks c\<rparr>"
  define u where "u = (\<lambda>l::ConversationTurn. \<lparr>upd_text = Some (turn_text l @ contentText c), upd_isFinal = None,
       upd_groundingChunks =
         (if noChunks (contentChunks c) then None
          else Some ((case groundingChunks l of None \<Rightarrow> [] | Some old \<Rightarrow> old)
                     @ the (contentChunks c)))\<rparr>)"
  have eq: "handleContent now c turns =
        (case lastTurn turns of
           Some l \<Rightarrow> if role l = agent \<and> \<not> isFinal l then updateLastTurn (u l) turns
                     else addTurn now t turns
         | None \<Rightarrow> addTurn now t turns)"
    using False unfolding handleContent_def Let_def t_def u_def by (simp only: if_False)
  have rt: "role t = agent" and ft: "\<not> isFinal t"
    by (simp_all add: t_def newTurn_def)
  show ?thesis
  proof (cases "lastTurn turns")
    case None
    have "neighbours_ok (addTurn now t turns)"
      using assms None by (intro neighbours_ok_add) simp_all
    with None eq show ?thesis by simp
  next
    case (Some l)
    show ?thesis
    proof (cases "role l = agent \<and> \<not> isFinal l")
      case True
      have "neighbours_ok (updateLastTurn (u l) turns)"
        using assms Some True by (intro neighbours_ok_update[where l = l]) simp_all
      with Some True eq show ?thesis by simp
    next
      case other: False
      have "neighbours_ok (addTurn now t turns)"
        using assms Some other rt by (intro neighbours_ok_add) auto
      with Some other eq show ?thesis by auto
    qed
  qed
qed

lemma neighbours_ok_turnComplete:
  assumes "neighbours_ok turns"
  shows "neighbours_ok (handleTurnComplete turns)"
proof (cases "lastTurn turns")
  case None
  with assms show ?thesis by (simp add: handleTurnComplete_def)
next
  case (Some l)
  have "neighbours_ok (updateLastTurn
          \<lparr>upd_text = None, upd_isFinal = Some True, upd_groundingChunks = None\<rparr> turns)"
    using assms Some by (intro neighbours_ok_update[where l = l]) simp_all
  with assms Some show ?thesis
    by (simp add: handleTurnComplete_def)
qed

lemma neighbours_ok_step: "neighbours_ok turns \<Longrightarrow> neighbours_ok (ledger_step turns ev)"
proof (cases ev)
  case (Pair now e)
  assume "neighbours_ok turns"
  with Pair show ?thesis
    by (cases e)
       (simp_all add: neighbours_ok_input neighbours_ok_output neighbours_ok_content
          neighbours_ok_turnComplete)
qed

lemma neighbours_ok_run: "neighbours_ok turns \<Longrightarrow> neighbours_ok (ledger_run evs turns)"
  unfolding ledger_run_def
  by (induction evs arbitrary: turns) (simp_all add: neighbours_ok_step)

lemma ledger_run_snoc: "ledger_run (evs @ [ev]) turns = ledger_step (ledger_run evs turns) ev"
  by (simp add: ledger_run_def)

lemma ledger_run_Cons: "ledger_run (ev # evs) turns = ledger_run evs (ledger_step turns ev)"
  by (simp add: ledger_run_def)

lemma handleTurnComplete_open: "open_turns (handleTurnComplete turns) = open_turns (butlast turns)"
  by (cases turns rule: rev_cases)
     (simp_all add: handleTurnComplete_def lastTurn_snoc lastTurn_Nil updateLastTurn_snoc
        spread_def open_turns_def)

lemma handleTurnComplete_last:
  "lastTurn (handleTurnComplete turns) = Some l \<Longrightarrow> isFinal l"
  by (cases turns rule: rev_cases)
     (auto simp: handleTurnComplete_def lastTurn_snoc lastTurn_Nil updateLastTurn_snoc
        spread_def split: if_splits)

lemma input_run_open:
  assumes "role l = user" and "\<not> isFinal l" and "ds \<noteq> []"
    and "\<forall>d \<in> set (butlast ds). \<not> delta_final d"
  shows "ledger_run (input_deltas ds) (ys @ [l]) =
         ys @ [l\<lparr>turn_text := turn_text l @ delta_text ds, isFinal := delta_final (last ds)\<rparr>]"
  using assms
proof (induction ds arbitrary: l)
  case Nil
  then show ?case by simp
next
  case (Cons d ds)
  obtain now s f where d: "d = (now, s, f)" by (cases d)
  have step: "ledger_step (ys @ [l]) (now, InputTranscription s f) =
              ys @ [l\<lparr>turn_text := turn_text l @ s, isFinal := f\<rparr>]"
    using Cons.prems(1,2)
    by (simp add: handleInputTranscription_def lastTurn_snoc updateLastTurn_snoc spread_def)
  show ?case
  proof (cases "ds = []")
    case True
    with d step show ?thesis
      by (simp add: ledger_run_def input_deltas_def delta_text_def delta_final_def)
  next
    case False
    with Cons.prems(4) d have nf: "\<not> f" and rest: "\<forall>d \<in> set (butlast ds). \<not> delta_final d"
      by (auto simp: delta_final_def)
    have "ledger_run (input_deltas ds) (ys @ [l\<lparr>turn_text := turn_text l @ s, isFinal := f\<rparr>]) =
          ys @ [(l\<lparr>turn_text := turn_text l @ s, isFinal := f\<rparr>)
                 \<lparr>turn_text := turn_text (l\<lparr>turn_text := turn_text l @ s, isFinal := f\<rparr>) @ delta_text ds,
                  isFinal := delta_final (last ds)\<rparr>]"
      using Cons.prems(1) nf False rest by (intro Cons.IH) simp_all
    with d step False show ?thesis
      by (simp add: ledger_run_Cons input_deltas_def delta_text_def)
  qed
qed


lemma updateLastTurn_Nil: "updateLastTurn u [] = []"
  by (simp add: updateLastTurn_def)

lemma texts_input: "texts (handleInputTranscription now s f turns) = texts turns @ s"
  by (cases turns rule: rev_cases)
     (simp_all add: handleInputTranscription_def lastTurn_snoc lastTurn_Nil updateLastTurn_snoc
        addTurn_def newTurn_def spread_def texts_def)

lemma texts_output: "texts (handleOutputTranscription now s f turns) = texts turns @ s"
  by (cases turns rule: rev_cases)
     (simp_all add: handleOutputTranscription_def lastTurn_snoc lastTurn_Nil updateLastTurn_snoc
        addTurn_def newTurn_def spread_def texts_def)

lemma texts_input_run: "texts (ledger_run (input_deltas ds) turns) = texts turns @ delta_text ds"
  by (induction ds arbitrary: turns)
     (auto simp: ledger_run_def input_deltas_def delta_text_def texts_input)

lemma texts_output_run: "texts (ledger_run (output_deltas ds) turns) = texts turns @ delta_text ds"
  by (induction ds arbitrary: turns)
     (auto simp: ledger_run_def output_deltas_def delta_text_def texts_output)

lemma output_run_open:
  assumes "role l = agent" and "\<not> isFinal l" and "ds \<noteq> []"
    and "\<forall>d \<in> set (butlast ds). \<not> delta_final d"
  shows "ledger_run (output_deltas ds) (ys @ [l]) =
         ys @ [l\<lparr>turn_text := turn_text l @ delta_text ds, isFinal := delta_final (last ds)\<rparr>]"
  using assms
proof (induction ds arbitrary: l)
  case Nil
  then show ?case by simp
next
  case (Cons d ds)
  obtain now s f where d: "d = (now, s, f)" by (cases d)
  have step: "ledger_step (ys @ [l]) (now, OutputTranscription s f) =
              ys @ [l\<lparr>turn_text := turn_text l @ s, isFinal := f\<rparr>]"
    using Cons.prems(1,2)
    by (simp add: handleOutputTranscription_def lastTurn_snoc updateLastTurn_snoc spread_def)
  show ?case
  proof (cases "ds = []")
    case True
    with d step show ?thesis
      by (simp add: ledger_run_def output_deltas_def delta_text_def delta_final_def)
  next
    case False
    with Cons.prems(4) d have nf: "\<not> f" and rest: "\<forall>d \<in> set (butlast ds). \<not> delta_final d"
      by (auto simp: delta_final_def)
    have "ledger_run (output_deltas ds) (ys @ [l\<lparr>turn_text := turn_text l @ s, isFinal := f\<rparr>]) =
          ys @ [(l\<lparr>turn_text := turn_text l @ s, isFinal := f\<rparr>)
                 \<lparr>turn_text := turn_text (l\<lparr>turn_text := turn_text l @ s, isFinal := f\<rparr>) @ delta_text ds,
                  isFinal := delta_final (last ds)\<rparr>]"
      using Cons.prems(1) nf False rest by (intro Cons.IH) simp_all
    with d step False show ?thesis
      by (simp add: ledger_run_Cons output_deltas_def delta_text_def)
  qed
qed

lemma input_run_single:
  assumes "ds \<noteq> []" and "\<forall>d \<in> set (butlast ds). \<not> delta_final d"
  shows "ledger_run (input_deltas ds) [] =
         [(newTurn user (delta_text ds) (delta_final (last ds)))\<lparr>timestamp := fst (hd ds)\<rparr>]"
proof -
  obtain d ds' where ds: "ds = d # ds'" using assms(1) by (cases ds) auto
  obtain now s f where d: "d = (now, s, f)" by (cases d)
  have first: "ledger_step [] (now, InputTranscription s f) = [(newTurn user s f)\<lparr>timestamp := now\<rparr>]"
    by (simp add: handleInputTranscription_def lastTurn_Nil addTurn_def)
  show ?thesis
  proof (cases "ds' = []")
    case True
    with ds d first show ?thesis
      by (simp add: ledger_run_def input_deltas_def delta_text_def delta_final_def)
  next
    case False
    with assms(2) ds d have nf: "\<not> f" and rest: "\<forall>d \<in> set (butlast ds'). \<not> delta_final d"
      by (auto simp: delta_final_def)
    have "ledger_run (input_deltas ds') ([] @ [(newTurn user s f)\<lparr>timestamp := now\<rparr>]) =
          [] @ [((newTurn user s f)\<lparr>timestamp := now\<rparr>)
                 \<lparr>turn_text := turn_text ((newTurn user s f)\<lparr>timestamp := now\<rparr>) @ delta_text ds',
                  isFinal := delta_final (last ds')\<rparr>]"
      using nf False rest by (intro input_run_open) (simp_all add: newTurn_def)
    with ds d first False show ?thesis
      by (simp add: ledger_run_Cons input_deltas_def delta_text_def newTurn_def)
  qed
qed

lemma output_run_single:
  assumes "ds \<noteq> []" and "\<forall>d \<in> set (butlast ds). \<not> delta_final d"
  shows "ledger_run (output_deltas ds) [] =
         [(newTurn agent (delta_text ds) (delta_final (last ds)))\<lparr>timestamp := fst (hd ds)\<rparr>]"
proof -
  obtain d ds' where ds: "ds = d # ds'" using assms(1) by (cases ds) auto
  obtain now s f where d: "d = (now, s, f)" by (cases d)
  have first: "ledger_step [] (now, OutputTranscription s f) = [(newTurn agent s f)\<lparr>timestamp := now\<rparr>]"
    by (simp add: handleOutputTranscription_def lastTurn_Nil addTurn_def)
  show ?thesis
  proof (cases "ds' = []")
    case True
    with ds d first show ?thesis
      by (simp add: ledger_run_def output_deltas_def delta_text_def delta_final_def)
  next
    case False
    with assms(2) ds d have nf: "\<not> f" and rest: "\<forall>d \<in> set (butlast ds'). \<not> delta_final d"
      by (auto simp: delta_final_def)
    have "ledger_run (output_deltas ds') ([] @ [(newTurn agent s f)\<lparr>timestamp := now\<rparr>]) =
          [] @ [((newTurn agent s f)\<lparr>timestamp := now\<rparr>)
                 \<lparr>turn_text := turn_text ((newTurn agent s f)\<lparr>timestamp := now\<rparr>) @ delta_text ds',
                  isFinal := delta_final (last ds')\<rparr>]"
      using nf False rest by (intro output_run_open) (simp_all add: newTurn_def)
    with ds d first False show ?thesis
      by (simp add: ledger_run_Cons output_deltas_def delta_text_def newTurn_def)
  qed
qed

lemma hello_world:
  "ledger_run (input_deltas [(t1, ''Hel'', False), (t2, ''lo '', False), (t3, ''world'', True)]) [] =
   [(newTurn user ''Hello world'' True)\<lparr>timestamp := t1\<rparr>]"
  by (simp add: ledger_run_def input_deltas_def handleInputTranscription_def lastTurn_def
        updateLastTurn_def addTurn_def newTurn_def spread_def)

subsection \<open>Claims about the Turn Ledger\<close>

text \<open>
  C4 (amended). After a turn-complete event the last turn of the ledger, if there is one, is
  final, and the turns still open are exactly the turns that were open before the last
  turn: the event looks at the last turn only. So the ledger has zero open turns after the
  event whenever no turn before the last one was open.
\<close>

theorem turn_complete_finalizes_last_turn:
  "open_turns (ledger_run (evs @ [(now, TurnComplete)]) turns) =
     open_turns (butlast (ledger_run evs turns))
   \<and> (\<forall>l. lastTurn (ledger_run (evs @ [(now, TurnComplete)]) turns) = Some l \<longrightarrow> isFinal l)
   \<and> (open_turns (butlast (ledger_run evs turns)) = [] \<longrightarrow>
        open_turns (ledger_run (evs @ [(now, TurnComplete)]) turns) = [])"
  by (simp add: ledger_run_snoc handleTurnComplete_open handleTurnComplete_last)

theorem turn_complete_finalizes_last_turn_witness:
  "open_turns (butlast (ledger_run [(1, InputTranscription ''hi'' False)] [])) = []
   \<and> lastTurn (ledger_run ([(1, InputTranscription ''hi'' False)] @ [(2, TurnComplete)]) []) =
       Some ((newTurn user ''hi'' True)\<lparr>timestamp := 1\<rparr>)
   \<and> isFinal ((newTurn user ''hi'' True)\<lparr>timestamp := 1\<rparr>)
   \<and> open_turns (ledger_run ([(1, InputTranscription ''hi'' False)] @ [(2, TurnComplete)]) []) = []"
  using turn_complete_finalizes_last_turn [of "[(1, InputTranscription ''hi'' False)]" 2 "[]"]
  by (simp add: ledger_run_def handleInputTranscription_def handleTurnComplete_def lastTurn_def
        updateLastTurn_def addTurn_def newTurn_def spread_def open_turns_def)

text \<open>
  C4, as stated, fails: a user delta, an agent delta and then turn-complete leave the
  user's turn open, since it is not the last turn.
\<close>

theorem turn_complete_leaves_open_turn:
  "open_turns
     (ledger_run [(1, InputTranscription ''hi'' False), (2, OutputTranscription ''yo'' False),
                  (3, TurnComplete)] []) =
   [(newTurn user ''hi'' False)\<lparr>timestamp := 1\<rparr>]"
  by (simp add: ledger_run_def handleInputTranscription_def handleOutputTranscription_def
        handleTurnComplete_def lastTurn_def updateLastTurn_def addTurn_def newTurn_def
        spread_def open_turns_def)

lemma open_last_snoc: "open_last r (ys @ [l]) = (role l = r \<and> \<not> isFinal l)"
  by (simp add: open_last_def lastTurn_snoc)

lemma open_last_Nil: "\<not> open_last r []"
  by (simp add: open_last_def lastTurn_Nil)

lemma input_merges:
  "open_last user turns \<Longrightarrow>
   handleInputTranscription now s f turns =
     butlast turns @ [(last turns)\<lparr>turn_text := turn_text (last turns) @ s, isFinal := f\<rparr>]"
  by (cases turns rule: rev_cases)
     (simp_all add: open_last_Nil open_last_snoc handleInputTranscription_def lastTurn_snoc
        updateLastTurn_snoc spread_def)

lemma input_opens:
  "\<not> open_last user turns \<Longrightarrow>
   handleInputTranscription now s f turns = turns @ [(newTurn user s f)\<lparr>timestamp := now\<rparr>]"
  by (cases turns rule: rev_cases)
     (auto simp: open_last_snoc handleInputTranscription_def lastTurn_snoc lastTurn_Nil
        addTurn_def)

lemma output_merges:
  "open_last agent turns \<Longrightarrow>
   handleOutputTranscription now s f turns =
     butlast turns @ [(last turns)\<lparr>turn_text := turn_text (last turns) @ s, isFinal := f\<rparr>]"
  by (cases turns rule: rev_cases)
     (simp_all add: open_last_Nil open_last_snoc handleOutputTranscription_def lastTurn_snoc
        updateLastTurn_snoc spread_def)

lemma output_opens:
  "\<not> open_last agent turns \<Longrightarrow>
   handleOutputTranscription now s f turns = turns @ [(newTurn agent s f)\<lparr>timestamp := now\<rparr>]"
  by (cases turns rule: rev_cases)
     (auto simp: open_last_snoc handleOutputTranscription_def lastTurn_snoc lastTurn_Nil
        addTurn_def)

lemma content_ignored:
  "empty_content c \<Longrightarrow> handleContent now c turns = turns"
  by (simp add: handleContent_def empty_content_def Let_def)

lemma content_merges:
  assumes "\<not> empty_content c" and "open_last agent turns"
  shows "handleContent now c turns =
     butlast turns @
       [(last turns)\<lparr>turn_text := turn_text (last turns) @ contentText c,
          groundingChunks :=
            (if noChunks (contentChunks c) then groundingChunks (last turns)
             else Some ((case groundingChunks (last turns) of None \<Rightarrow> [] | Some old \<Rightarrow> old)
                        @ the (contentChunks c)))\<rparr>]"
proof (cases turns rule: rev_cases)
  case Nil
  with assms(2) show ?thesis by (simp add: open_last_Nil)
next
  case (snoc ys l)
  with assms(2) have l: "role l = agent" "\<not> isFinal l" by (simp_all add: open_last_snoc)
  from assms(1) have ne: "\<not> (contentText c = [] \<and> noChunks (contentChunks c))"
    by (simp add: empty_content_def)
  show ?thesis
    using ne l snoc
    by (auto simp: handleContent_def Let_def lastTurn_snoc updateLastTurn_snoc spread_def)
qed

lemma content_opens:
  assumes "\<not> empty_content c" and "\<not> open_last agent turns"
  shows "handleContent now c turns =
     turns @ [(newTurn agent (contentText c) False)
                \<lparr>groundingChunks := contentChunks c, timestamp := now\<rparr>]"
proof -
  from assms(1) have ne: "\<not> (contentText c = [] \<and> noChunks (contentChunks c))"
    by (simp add: empty_content_def)
  show ?thesis
    using ne assms(2)
    by (cases turns rule: rev_cases)
       (auto simp: open_last_snoc handleContent_def Let_def lastTurn_snoc lastTurn_Nil addTurn_def)
qed

text \<open>
  C5 (amended). In every ledger reached from the empty ledger (or from any ledger with the
  property) by transcript deltas, content deltas and turn-complete events, no two
  neighbouring turns are both open with the same role. A transcript delta is merged into
  the last turn (its text appended, its finality taken) when that turn is open and of the
  delta's role, and is appended as a new turn of that role otherwise. A content delta with
  no text and no citations changes nothing; any other content delta is merged into the last
  turn when that is an open agent turn (text and citations appended, finality kept), and is
  appended as a new open agent turn otherwise.
\<close>

theorem neighbouring_open_turns_differ_in_role:
  "neighbours_ok (ledger_run evs [])
   \<and> (neighbours_ok turns \<longrightarrow> neighbours_ok (ledger_run evs turns))
   \<and> (open_last user turns \<longrightarrow>
        handleInputTranscription now s f turns =
          butlast turns @ [(last turns)\<lparr>turn_text := turn_text (last turns) @ s, isFinal := f\<rparr>])
   \<and> (\<not> open_last user turns \<longrightarrow>
        handleInputTranscription now s f turns =
          turns @ [(newTurn user s f)\<lparr>timestamp := now\<rparr>])
   \<and> (open_last agent turns \<longrightarrow>
        handleOutputTranscription now s f turns =
          butlast turns @ [(last turns)\<lparr>turn_text := turn_text (last turns) @ s, isFinal := f\<rparr>])
   \<and> (\<not> open_last agent turns \<longrightarrow>
        handleOutputTranscription now s f turns =
          turns @ [(newTurn agent s f)\<lparr>timestamp := now\<rparr>])
   \<and> (empty_content c \<longrightarrow> handleContent now c turns = turns)
   \<and> (\<not> empty_content c \<and> open_last agent turns \<longrightarrow>
        handleContent now c turns =
          butlast turns @
            [(last turns)\<lparr>turn_text := turn_text (last turns) @ contentText c,
               groundingChunks :=
                 (if noChunks (contentChunks c) then groundingChunks (last turns)
                  else Some ((case groundingChunks (last turns) of None \<Rightarrow> [] | Some old \<Rightarrow> old)
                             @ the (contentChunks c)))\<rparr>])
   \<and> (\<not> empty_content c \<and> \<not> open_last agent turns \<longrightarrow>
        handleContent now c turns =
          turns @ [(newTurn agent (contentText c) False)
                     \<lparr>groundingChunks := contentChunks c, timestamp := now\<rparr>])"
  using neighbours_ok_run[of "[]" evs] neighbours_ok_run[of turns evs]
    input_merges[of turns now s f] input_opens[of turns now s f]
    output_merges[of turns now s f] output_opens[of turns now s f]
    content_ignored[of c now turns] content_merges[of c turns now] content_opens[of c turns now]
  by simp

theorem neighbouring_open_turns_differ_in_role_witness:
  "neighbours_ok [(newTurn user ''a'' False)\<lparr>timestamp := 1\<rparr>]
   \<and> neighbours_ok
       (ledger_run [(2, OutputTranscription ''b'' False), (3, InputTranscription ''c'' False)]
          [(newTurn user ''a'' False)\<lparr>timestamp := 1\<rparr>])
   \<and> open_last user [(newTurn user ''a'' False)\<lparr>timestamp := 1\<rparr>]
   \<and> handleInputTranscription 2 ''b'' True [(newTurn user ''a'' False)\<lparr>timestamp := 1\<rparr>] =
       [(newTurn user ''ab'' True)\<lparr>timestamp := 1\<rparr>]
   \<and> \<not> open_last agent [(newTurn user ''a'' False)\<lparr>timestamp := 1\<rparr>]
   \<and> handleOutputTranscription 2 ''b'' False [(newTurn user ''a'' False)\<lparr>timestamp := 1\<rparr>] =
       [(newTurn user ''a'' False)\<lparr>timestamp := 1\<rparr>, (newTurn agent ''b'' False)\<lparr>timestamp := 2\<rparr>]
   \<and> empty_content \<lparr>parts = Some [None, Some ''''], rawGroundingChunks = None\<rparr>
   \<and> handleContent 2 \<lparr>parts = Some [None, Some ''''], rawGroundingChunks = None\<rparr>
         [(newTurn user ''a'' False)\<lparr>timestamp := 1\<rparr>] =
       [(newTurn user ''a'' False)\<lparr>timestamp := 1\<rparr>]
   \<and> \<not> empty_content \<lparr>parts = Some [Some ''b'', None, Some ''c''], rawGroundingChunks = None\<rparr>
   \<and> handleContent 2 \<lparr>parts = Some [Some ''b'', None, Some ''c''], rawGroundingChunks = None\<rparr>
         [(newTurn user ''a'' False)\<lparr>timestamp := 1\<rparr>] =
       [(newTurn user ''a'' False)\<lparr>timestamp := 1\<rparr>, (newTurn agent ''b c'' False)\<lparr>timestamp := 2\<rparr>]
   \<and> open_last agent [(newTurn agent ''a'' False)\<lparr>timestamp := 1\<rparr>]
   \<and> \<not> open_last user [(newTurn agent ''a'' False)\<lparr>timestamp := 1\<rparr>]
   \<and> handleInputTranscription 2 ''b'' False [(newTurn agent ''a'' False)\<lparr>timestamp := 1\<rparr>] =
       [(newTurn agent ''a'' False)\<lparr>timestamp := 1\<rparr>, (newTurn user ''b'' False)\<lparr>timestamp := 2\<rparr>]
   \<and> handleOutputTranscription 2 ''b'' True [(newTurn agent ''a'' False)\<lparr>timestamp := 1\<rparr>] =
       [(newTurn agent ''ab'' True)\<lparr>timestamp := 1\<rparr>]
   \<and> handleContent 2 \<lparr>parts = Some [Some ''b'', None, Some ''c''], rawGroundingChunks = None\<rparr>
         [(newTurn agent ''a'' False)\<lparr>timestamp := 1\<rparr>] =
       [(newTurn agent ''ab c'' False)\<lparr>timestamp := 1\<rparr>]"
proof -
  let ?u = "[(newTurn user ''a'' False)\<lparr>timestamp := 1\<rparr>]"
  let ?a = "[(newTurn agent ''a'' False)\<lparr>timestamp := 1\<rparr>]"
  let ?none = "\<lparr>parts = Some [None, Some ''''], rawGroundingChunks = None\<rparr>"
  let ?bc = "\<lparr>parts = Some [Some ''b'', None, Some ''c''], rawGroundingChunks = None\<rparr>"
  have facts: "neighbours_ok ?u" "open_last user ?u" "\<not> open_last agent ?u"
    "open_last agent ?a" "\<not> open_last user ?a" "empty_content ?none" "\<not> empty_content ?bc"
    "contentText ?bc = ''b c''" "noChunks (contentChunks ?bc)"
    by (simp_all add: open_last_def lastTurn_def newTurn_def empty_content_def contentText_def
          contentChunks_def noChunks_def truthy_def)
  note u1 = neighbouring_open_turns_differ_in_role
    [of "[(2, OutputTranscription ''b'' False), (3, InputTranscription ''c'' False)]" ?u 2 "''b''" True ?none]
  note u2 = neighbouring_open_turns_differ_in_role [of "[]" ?u 2 "''b''" False ?bc]
  note a1 = neighbouring_open_turns_differ_in_role [of "[]" ?a 2 "''b''" False ?bc]
  note a2 = neighbouring_open_turns_differ_in_role [of "[]" ?a 2 "''b''" True ?bc]
  from u1 facts have r1:
    "neighbours_ok (ledger_run [(2, OutputTranscription ''b'' False), (3, InputTranscription ''c'' False)] ?u)"
    "handleInputTranscription 2 ''b'' True ?u =
       butlast ?u @ [(last ?u)\<lparr>turn_text := turn_text (last ?u) @ ''b'', isFinal := True\<rparr>]"
    "handleContent 2 ?none ?u = ?u"
    by blast+
  from u2 facts have r2:
    "handleOutputTranscription 2 ''b'' False ?u = ?u @ [(newTurn agent ''b'' False)\<lparr>timestamp := 2\<rparr>]"
    "handleContent 2 ?bc ?u =
       ?u @ [(newTurn agent (contentText ?bc) False)\<lparr>groundingChunks := contentChunks ?bc, timestamp := 2\<rparr>]"
    by blast+
  from a1 facts have r3:
    "handleInputTranscription 2 ''b'' False ?a = ?a @ [(newTurn user ''b'' False)\<lparr>timestamp := 2\<rparr>]"
    "handleContent 2 ?bc ?a =
       butlast ?a @
         [(last ?a)\<lparr>turn_text := turn_text (last ?a) @ contentText ?bc,
            groundingChunks :=
              (if noChunks (contentChunks ?bc) then groundingChunks (last ?a)
               else Some ((case groundingChunks (last ?a) of None \<Rightarrow> [] | Some old \<Rightarrow> old)
                          @ the (contentChunks ?bc)))\<rparr>]"
    by blast+
  from a2 facts have r4:
    "handleOutputTranscription 2 ''b'' True ?a =
       butlast ?a @ [(last ?a)\<lparr>turn_text := turn_text (last ?a) @ ''b'', isFinal := True\<rparr>]"
    by blast
  from facts r1 r2 r3 r4 show ?thesis
    by (simp add: newTurn_def contentChunks_def)
qed

text \<open>
  C5, as stated, fails: a user delta, an agent delta and another user delta leave two user
  turns open.
\<close>

theorem two_open_user_turns:
  "length
     (open_turns_of user
        (ledger_run [(1, InputTranscription ''a'' False), (2, OutputTranscription ''b'' False),
                     (3, InputTranscription ''c'' False)] [])) = 2"
  by (simp add: ledger_run_def handleInputTranscription_def handleOutputTranscription_def
        lastTurn_def updateLastTurn_def addTurn_def newTurn_def spread_def open_turns_of_def)

text \<open>
  C6. Transcript deltas of one role add their texts, in order, to the end of the ledger's
  text, however the text is cut into deltas. Fed to the empty ledger with no delta but the
  last marked final, they make exactly one turn of that role, holding the concatenation of
  the delta texts and the last delta's finality. The deltas "Hel", "lo ", "world" with
  isFinal false, false, true make one final user turn with the text "Hello world".
\<close>

theorem chunking_invariance:
  "texts (ledger_run (input_deltas ds) turns) = texts turns @ delta_text ds
   \<and> texts (ledger_run (output_deltas ds) turns) = texts turns @ delta_text ds
   \<and> (ds \<noteq> [] \<and> (\<forall>d \<in> set (butlast ds). \<not> delta_final d) \<longrightarrow>
        ledger_run (input_deltas ds) [] =
          [(newTurn user (delta_text ds) (delta_final (last ds)))\<lparr>timestamp := fst (hd ds)\<rparr>]
        \<and> ledger_run (output_deltas ds) [] =
          [(newTurn agent (delta_text ds) (delta_final (last ds)))\<lparr>timestamp := fst (hd ds)\<rparr>])
   \<and> ledger_run (input_deltas [(t1, ''Hel'', False), (t2, ''lo '', False), (t3, ''world'', True)]) [] =
       [(newTurn user ''Hello world'' True)\<lparr>timestamp := t1\<rparr>]"
  by (simp add: texts_input_run texts_output_run input_run_single output_run_single hello_world)

theorem chunking_invariance_witness:
  "[(1, ''Hello '', False), (2, ''world'', True)] \<noteq> []
   \<and> butlast [(1::nat, ''Hello '', False), (2, ''world'', True)] = [(1, ''Hello '', False)]
   \<and> \<not> delta_final (1::nat, ''Hello '', False)
   \<and> ledger_run (input_deltas [(1, ''Hello '', False), (2, ''world'', True)]) [] =
       [(newTurn user ''Hello world'' True)\<lparr>timestamp := 1\<rparr>]
   \<and> ledger_run (input_deltas [(1, ''Hello '', False), (2, ''world'', True)]) [] =
       ledger_run (input_deltas [(1, ''Hel'', False), (2, ''lo '', False), (3, ''world'', True)]) []"
  using chunking_invariance [of "[(1, ''Hello '', False), (2, ''world'', True)]" "[]" 1 2 3]
  by (simp add: delta_text_def delta_final_def)

section \<open>Properties of the Background Task Tracker\<close>

lemma clear_char:
  "clearCompletedTasks tasks = filter (\<lambda>t. status t \<noteq> completed \<and> status t \<noteq> failed) tasks"
proof -
  have "(status t = running) = (status t \<noteq> completed \<and> status t \<noteq> failed)" for t :: BackgroundTask
    by (cases "status t") simp_all
  then show ?thesis by (simp add: clearCompletedTasks_def)
qed

lemma clear_subseq: "subseq (clearCompletedTasks tasks) tasks"
  by (simp add: clearCompletedTasks_def)

lemma spread_task_id: "task_id (spread_task t u) = task_id t"
  by (simp add: spread_task_def)

lemma spread_task_progress:
  "progress (spread_task t u) = (case set_progress u of None \<Rightarrow> progress t | Some q \<Rightarrow> q)"
  by (simp add: spread_task_def)

lemma progress_history_head:
  "task_id t = tid \<Longrightarrow>
   progress_history tid us (t # rest) = map Some (progress_values (progress t) us)"
proof (induction us arbitrary: t rest)
  case Nil
  then show ?case by (simp add: progress_history_def task_progress_def)
next
  case (Cons u us)
  have "progress_history tid us (spread_task t u # updateTask tid u rest) =
        map Some (progress_values (progress (spread_task t u)) us)"
    using Cons.prems by (intro Cons.IH) (simp add: spread_task_id)
  with Cons.prems show ?case
    by (simp add: progress_history_def task_progress_def updateTask_def spread_task_progress)
qed

lemma sorted_progress_values_Cons:
  "sorted (q # progress_values p us) = (q \<le> p \<and> sorted (progress_values p us))"
  by (cases us) auto

lemma list_all_progress_values_snoc_same:
  "set_progress u = None \<Longrightarrow>
   list_all P (progress_values p us) \<Longrightarrow> list_all P (progress_values p (take k us @ [u]))"
proof (induction us arbitrary: p k)
  case Nil
  then show ?case by simp
next
  case (Cons v vs)
  then show ?case by (cases k) auto
qed

lemma sorted_progress_values_snoc_same:
  "set_progress u = None \<Longrightarrow>
   sorted (progress_values p us) \<Longrightarrow> sorted (progress_values p (take k us @ [u]))"
proof (induction us arbitrary: p k)
  case Nil
  then show ?case by simp
next
  case (Cons v vs)
  show ?case
  proof (cases k)
    case 0
    then show ?thesis using Cons.prems by simp
  next
    case (Suc k')
    with Cons show ?thesis
      by (simp add: sorted_progress_values_Cons del: sorted_wrt.simps)
  qed
qed

lemma video_poll_sorted:
  "q \<le> min (p + 15) 90 \<Longrightarrow> set_progress fin = None \<or> set_progress fin = Some 100 \<Longrightarrow>
   sorted (progress_values q (video_poll p n @ [fin]))"
proof (induction n arbitrary: p q)
  case 0
  then show ?case by auto
next
  case (Suc n)
  have "sorted (progress_values (min (p + 15) 90) (video_poll (min (p + 15) 90) n @ [fin]))"
    using Suc.prems(2) by (intro Suc.IH) simp_all
  with Suc.prems(1) show ?case
    by (simp add: Let_def progress_update_def sorted_progress_values_Cons del: sorted_wrt.simps)
qed

lemma video_poll_bounds:
  "within_0_100 q \<Longrightarrow> 0 \<le> p \<Longrightarrow> set_progress fin = None \<or> set_progress fin = Some 100 \<Longrightarrow>
   list_all within_0_100 (progress_values q (video_poll p n @ [fin]))"
proof (induction n arbitrary: p q)
  case 0
  then show ?case by (auto simp: within_0_100_def)
next
  case (Suc n)
  have "list_all within_0_100 (progress_values (min (p + 15) 90) (video_poll (min (p + 15) 90) n @ [fin]))"
    using Suc.prems by (intro Suc.IH) (simp_all add: within_0_100_def)
  with Suc.prems(1) show ?case
    by (simp add: Let_def progress_update_def)
qed

lemma video_final_progress:
  "set_progress (video_final apiKey e) = None \<or> set_progress (video_final apiKey e) = Some 100"
  by (cases e) (simp_all add: video_final_def completed_update_def failed_update_def)


subsection \<open>The rounding of JavaScript numbers is monotone and exact on integers\<close>

lemma expo_ge_1:
  assumes "1 \<le> x"
  shows "2 powi (expo x) = (2::rat) ^ nat (bitlen \<lfloor>x\<rfloor> - 1)"
    and "2 powi (expo x + 1) = (2::rat) ^ nat (bitlen \<lfloor>x\<rfloor>)"
proof -
  have "0 < \<lfloor>x\<rfloor>" using assms by simp
  then have b: "1 \<le> bitlen \<lfloor>x\<rfloor>" by (simp add: bitlen_alt_def)
  have e: "expo x = bitlen \<lfloor>x\<rfloor> - 1" using assms by (simp add: expo_def)
  show "2 powi (expo x) = (2::rat) ^ nat (bitlen \<lfloor>x\<rfloor> - 1)"
    unfolding e using b by (simp add: power_int_def)
  show "2 powi (expo x + 1) = (2::rat) ^ nat (bitlen \<lfloor>x\<rfloor>)"
    unfolding e using b by (simp add: power_int_def)
qed

lemma expo_less_1:
  assumes "0 < x" and "\<not> 1 \<le> x"
  shows "2 powi (expo x) = 1 / (2::rat) ^ nat (bitlen (\<lceil>1 / x\<rceil> - 1))"
    and "2 powi (expo x + 1) = 1 / (2::rat) ^ nat (bitlen (\<lceil>1 / x\<rceil> - 1) - 1)"
    and "1 \<le> bitlen (\<lceil>1 / x\<rceil> - 1)"
proof -
  let ?c = "bitlen (\<lceil>1 / x\<rceil> - 1)"
  from assms have "1 < 1 / x" by simp
  then have "2 \<le> \<lceil>1 / x\<rceil>" by linarith
  then have "0 < \<lceil>1 / x\<rceil> - 1" by simp
  then show c: "1 \<le> ?c" by (simp add: bitlen_alt_def)
  have e: "expo x = - ?c" using assms by (simp add: expo_def)
  have i: "inverse (2::rat) ^ n = 1 / 2 ^ n" for n
    by (simp add: inverse_eq_divide power_one_over)
  have "2 powi (- ?c) = inverse (2::rat) ^ nat ?c"
    using c by (simp add: power_int_def)
  then show "2 powi (expo x) = 1 / (2::rat) ^ nat ?c"
    unfolding e i .
  have "- ?c + 1 = - (?c - 1)" by simp
  moreover have "2 powi (- (?c - 1)) = inverse (2::rat) ^ nat (?c - 1)"
  proof (cases "?c = 1")
    case True
    then show ?thesis by simp
  next
    case False
    with c have "\<not> 0 \<le> - (?c - 1)" by simp
    then show ?thesis by (simp only: power_int_def if_False minus_minus)
  qed
  ultimately show "2 powi (expo x + 1) = 1 / (2::rat) ^ nat (?c - 1)"
    unfolding e i by simp
qed

lemma expo_bounds:
  assumes "0 < x"
  shows "2 powi (expo x) \<le> x" and "x < 2 powi (expo x + 1)"
proof -
  show "2 powi (expo x) \<le> x"
  proof (cases "1 \<le> x")
    case True
    then have pos: "0 < \<lfloor>x\<rfloor>" by simp
    from bitlen_bounds[OF pos] have "2 ^ nat (bitlen \<lfloor>x\<rfloor> - 1) \<le> \<lfloor>x\<rfloor>" by simp
    then have "(of_int (2 ^ nat (bitlen \<lfloor>x\<rfloor> - 1)) :: rat) \<le> of_int \<lfloor>x\<rfloor>"
      by (simp only: of_int_le_iff)
    also have "\<dots> \<le> x" by simp
    finally have "(2::rat) ^ nat (bitlen \<lfloor>x\<rfloor> - 1) \<le> x" by simp
    then show ?thesis by (simp only: expo_ge_1(1)[OF True])
  next
    case False
    let ?m = "\<lceil>1 / x\<rceil>"
    let ?c = "bitlen (?m - 1)"
    from False assms have "1 < 1 / x" by simp
    then have m2: "2 \<le> ?m" by linarith
    then have pos: "0 < ?m - 1" by simp
    from bitlen_bounds[OF pos] have "?m - 1 < 2 ^ nat ?c" by simp
    then have "?m \<le> 2 ^ nat ?c" by simp
    then have "(of_int ?m :: rat) \<le> of_int (2 ^ nat ?c)" by (simp only: of_int_le_iff)
    then have "(of_int ?m :: rat) \<le> 2 ^ nat ?c" by simp
    moreover have "1 / x \<le> of_int ?m" by simp
    ultimately have le: "1 / x \<le> 2 ^ nat ?c" by linarith
    have p: "(0::rat) < 2 ^ nat ?c" by simp
    from le have "1 \<le> 2 ^ nat ?c * x"
      using assms by (simp only: pos_divide_le_eq)
    then have "1 \<le> x * 2 ^ nat ?c" by (simp only: mult.commute)
    then have "1 / 2 ^ nat ?c \<le> x"
      using p by (simp only: pos_divide_le_eq)
    then show ?thesis by (simp only: expo_less_1(1)[OF assms False])
  qed
  show "x < 2 powi (expo x + 1)"
  proof (cases "1 \<le> x")
    case True
    then have pos: "0 < \<lfloor>x\<rfloor>" by simp
    from bitlen_bounds[OF pos] have "\<lfloor>x\<rfloor> < 2 ^ nat (bitlen \<lfloor>x\<rfloor>)" by simp
    then have "\<lfloor>x\<rfloor> + 1 \<le> 2 ^ nat (bitlen \<lfloor>x\<rfloor>)" by simp
    then have "(of_int (\<lfloor>x\<rfloor> + 1) :: rat) \<le> of_int (2 ^ nat (bitlen \<lfloor>x\<rfloor>))"
      by (simp only: of_int_le_iff)
    moreover have "x < of_int (\<lfloor>x\<rfloor> + 1)" by linarith
    ultimately have "x < 2 ^ nat (bitlen \<lfloor>x\<rfloor>)" by simp
    then show ?thesis by (simp only: expo_ge_1(2)[OF True])
  next
    case False
    let ?m = "\<lceil>1 / x\<rceil>"
    let ?c = "bitlen (?m - 1)"
    from False assms have "1 < 1 / x" by simp
    then have m2: "2 \<le> ?m" by linarith
    then have pos: "0 < ?m - 1" by simp
    from bitlen_bounds[OF pos] have "2 ^ nat (?c - 1) \<le> ?m - 1" by simp
    then have "(of_int (2 ^ nat (?c - 1)) :: rat) \<le> of_int (?m - 1)" by (simp only: of_int_le_iff)
    moreover have "of_int (?m - 1) < 1 / x" by linarith
    ultimately have lt: "(2::rat) ^ nat (?c - 1) < 1 / x" by simp
    have p: "(0::rat) < 2 ^ nat (?c - 1)" by simp
    from lt have "2 ^ nat (?c - 1) * x < 1"
      using assms by (simp only: pos_less_divide_eq)
    then have "x * 2 ^ nat (?c - 1) < 1" by (simp only: mult.commute)
    then have "x < 1 / 2 ^ nat (?c - 1)"
      using p by (simp only: pos_less_divide_eq)
    then show ?thesis by (simp only: expo_less_1(2)[OF assms False])
  qed
qed

lemma roundTiesToEven_bounds: "\<lfloor>x\<rfloor> \<le> roundTiesToEven x" "roundTiesToEven x \<le> \<lfloor>x\<rfloor> + 1"
  by (simp_all add: roundTiesToEven_def Let_def)

lemma roundTiesToEven_of_int: "roundTiesToEven (of_int i) = i"
  by (simp add: roundTiesToEven_def Let_def)

lemma roundTiesToEven_mono:
  assumes "x \<le> y"
  shows "roundTiesToEven x \<le> roundTiesToEven y"
proof (cases "\<lfloor>x\<rfloor> = \<lfloor>y\<rfloor>")
  case True
  with assms have "x - of_int \<lfloor>x\<rfloor> \<le> y - of_int \<lfloor>y\<rfloor>" by simp
  with True show ?thesis
    by (auto simp: roundTiesToEven_def Let_def)
next
  case False
  with assms have "\<lfloor>x\<rfloor> < \<lfloor>y\<rfloor>"
    by (simp add: floor_mono order.strict_iff_order)
  then have "\<lfloor>x\<rfloor> + 1 \<le> \<lfloor>y\<rfloor>" by simp
  with roundTiesToEven_bounds(2)[of x] roundTiesToEven_bounds(1)[of y] show ?thesis
    by linarith
qed

lemma roundTiesToEven_le: "x \<le> of_int b \<Longrightarrow> roundTiesToEven x \<le> b"
  using roundTiesToEven_mono[of x "of_int b"] by (simp add: roundTiesToEven_of_int)

lemma roundTiesToEven_ge: "of_int a \<le> x \<Longrightarrow> a \<le> roundTiesToEven x"
  using roundTiesToEven_mono[of "of_int a" x] by (simp add: roundTiesToEven_of_int)

lemma ulp_pos: "0 < ulp x"
  by (simp add: ulp_def)

lemma ulp_shift:
  "2 ^ 52 * ulp x = 2 powi (expo x)" "2 ^ 53 * ulp x = 2 powi (expo x + 1)"
proof -
  have a: "(2::rat) powi ((expo x - 52) + 52) = 2 powi (expo x - 52) * 2 powi 52"
    by (rule power_int_add) simp
  have b: "(2::rat) powi ((expo x - 52) + 53) = 2 powi (expo x - 52) * 2 powi 53"
    by (rule power_int_add) simp
  have c: "(2::rat) powi 52 = 2 ^ 52" "(2::rat) powi 53 = 2 ^ 53"
    by (simp_all add: power_int_def)
  have d: "(expo x - 52) + 52 = expo x" "(expo x - 52) + 53 = expo x + 1"
    by simp_all
  from a c(1) d(1) show "2 ^ 52 * ulp x = 2 powi (expo x)"
    by (simp only: ulp_def mult.commute)
  from b c(2) d(2) show "2 ^ 53 * ulp x = 2 powi (expo x + 1)"
    by (simp only: ulp_def mult.commute)
qed

lemma scaled_bounds:
  assumes "0 < x"
  shows "2 ^ 52 \<le> x / ulp x" and "x / ulp x \<le> 2 ^ 53"
proof -
  from expo_bounds(1)[OF assms] have "2 ^ 52 * ulp x \<le> x"
    by (simp only: ulp_shift)
  then show "2 ^ 52 \<le> x / ulp x"
    using ulp_pos[of x] by (simp only: pos_le_divide_eq)
  from expo_bounds(2)[OF assms] have "x \<le> 2 ^ 53 * ulp x"
    by (simp only: ulp_shift)
  then show "x / ulp x \<le> 2 ^ 53"
    using ulp_pos[of x] by (simp only: pos_divide_le_eq)
qed

lemma fl_pos_bounds:
  assumes "0 < x"
  shows "2 powi (expo x) \<le> fl x" and "fl x \<le> 2 powi (expo x + 1)"
proof -
  note u = ulp_shift(1)[of x] and v = ulp_shift(2)[of x]
  have f: "fl x = of_int (roundTiesToEven (x / ulp x)) * ulp x"
    using assms by (simp add: fl_def)
  have "(of_int (2 ^ 52) :: rat) \<le> x / ulp x"
    using scaled_bounds(1)[OF assms] by simp
  then have "2 ^ 52 \<le> roundTiesToEven (x / ulp x)"
    by (rule roundTiesToEven_ge)
  then have "(of_int (2 ^ 52) :: rat) \<le> of_int (roundTiesToEven (x / ulp x))"
    by (simp only: of_int_le_iff)
  then have "2 ^ 52 * ulp x \<le> of_int (roundTiesToEven (x / ulp x)) * ulp x"
    using ulp_pos[of x] by (simp add: mult_right_mono)
  with u f show "2 powi (expo x) \<le> fl x" by (simp only:)
  have "x / ulp x \<le> of_int (2 ^ 53)"
    using scaled_bounds(2)[OF assms] by simp
  then have "roundTiesToEven (x / ulp x) \<le> 2 ^ 53"
    by (rule roundTiesToEven_le)
  then have "(of_int (roundTiesToEven (x / ulp x)) :: rat) \<le> of_int (2 ^ 53)"
    by (simp only: of_int_le_iff)
  then have "of_int (roundTiesToEven (x / ulp x)) * ulp x \<le> 2 ^ 53 * ulp x"
    using ulp_pos[of x] by (simp add: mult_right_mono)
  with v f show "fl x \<le> 2 powi (expo x + 1)" by (simp only:)
qed

lemma expo_mono:
  assumes "0 < x" and "x \<le> y"
  shows "expo x \<le> expo y"
proof (rule ccontr)
  assume "\<not> expo x \<le> expo y"
  then have "expo y + 1 \<le> expo x" by simp
  then have "(2::rat) powi (expo y + 1) \<le> 2 powi (expo x)"
    by (intro power_int_increasing) simp_all
  also have "\<dots> \<le> x" using assms(1) by (rule expo_bounds(1))
  also have "\<dots> \<le> y" by (rule assms(2))
  finally have "2 powi (expo y + 1) \<le> y" .
  moreover have "y < 2 powi (expo y + 1)"
    using assms by (intro expo_bounds(2)) simp
  ultimately show False by simp
qed

lemma fl_mono_pos:
  assumes "0 < x" and "x \<le> y"
  shows "fl x \<le> fl y"
proof (cases "expo x = expo y")
  case True
  then have u: "ulp y = ulp x" by (simp add: ulp_def)
  have "x / ulp x \<le> y / ulp x"
    using assms(2) ulp_pos[of x] by (simp add: divide_right_mono)
  then have "roundTiesToEven (x / ulp x) \<le> roundTiesToEven (y / ulp x)"
    by (rule roundTiesToEven_mono)
  then have "(of_int (roundTiesToEven (x / ulp x)) :: rat) \<le> of_int (roundTiesToEven (y / ulp x))"
    by (simp only: of_int_le_iff)
  then have "of_int (roundTiesToEven (x / ulp x)) * ulp x \<le> of_int (roundTiesToEven (y / ulp x)) * ulp x"
    using ulp_pos[of x] by (simp add: mult_right_mono)
  with assms u show ?thesis by (simp add: fl_def)
next
  case False
  with expo_mono[OF assms] have "expo x + 1 \<le> expo y" by simp
  then have p: "(2::rat) powi (expo x + 1) \<le> 2 powi (expo y)"
    by (intro power_int_increasing) simp_all
  have "fl x \<le> 2 powi (expo x + 1)" using assms(1) by (rule fl_pos_bounds(2))
  also note p
  also have "2 powi (expo y) \<le> fl y" using assms by (intro fl_pos_bounds(1)) simp
  finally show ?thesis .
qed

lemma fl_mono:
  assumes "0 \<le> x" and "x \<le> y"
  shows "fl x \<le> fl y"
proof (cases "x = 0")
  case True
  show ?thesis
  proof (cases "y = 0")
    case True
    with \<open>x = 0\<close> show ?thesis by simp
  next
    case False
    with assms True have "0 < y" by simp
    then have "0 < (2::rat) powi (expo y)" by simp
    also have "\<dots> \<le> fl y" using \<open>0 < y\<close> by (rule fl_pos_bounds(1))
    finally show ?thesis using True by (simp add: fl_def)
  qed
next
  case False
  with assms have "0 < x" by simp
  then show ?thesis using assms(2) by (rule fl_mono_pos)
qed

lemma fl_of_nat:
  assumes "n < 2 ^ 53"
  shows "fl (of_nat n) = of_nat n"
proof (cases "n = 0")
  case True
  then show ?thesis by (simp add: fl_def)
next
  case False
  let ?x = "of_nat n :: rat"
  have pos: "0 < ?x" using False by simp
  have "2 powi (expo ?x) \<le> ?x" using pos by (rule expo_bounds(1))
  also have "?x < 2 ^ 53"
  proof -
    have "(of_nat n :: rat) < of_nat (2 ^ 53)" using assms by (simp only: of_nat_less_iff)
    then show ?thesis by simp
  qed
  finally have lt: "(2::rat) powi (expo ?x) < 2 ^ 53" .
  have e: "expo ?x < 53"
  proof (rule ccontr)
    assume "\<not> expo ?x < 53"
    then have "53 \<le> expo ?x" by simp
    then have "(2::rat) powi 53 \<le> 2 powi (expo ?x)"
      by (intro power_int_increasing) simp_all
    moreover have "(2::rat) powi 53 = 2 ^ 53" by (simp add: power_int_def)
    ultimately show False using lt by simp
  qed
  define k where "k = nat (52 - expo ?x)"
  have u: "ulp ?x = 1 / 2 ^ k"
    using e by (simp add: ulp_def k_def power_int_def inverse_eq_divide power_one_over)
  have "?x / ulp ?x = of_int (int n * 2 ^ k)"
    by (simp add: u)
  then have "roundTiesToEven (?x / ulp ?x) = int n * 2 ^ k"
    by (simp only: roundTiesToEven_of_int)
  then show ?thesis
    using pos by (simp add: fl_def u)
qed


lemma fl_0: "fl 0 = 0"
  by (simp add: fl_def)

lemma fl_numerals: "fl 1 = 1" "fl 10 = 10" "fl 80 = 80" "fl 90 = 90"
  using fl_of_nat[of 1] fl_of_nat[of 10] fl_of_nat[of 80] fl_of_nat[of 90] by simp_all

lemma fl_nonneg: "0 \<le> x \<Longrightarrow> 0 \<le> fl x"
  using fl_mono[of 0 x] by (simp add: fl_0)

subsection \<open>Progress of the two executions\<close>

lemma asset_progress_mono:
  assumes "a \<le> b"
  shows "asset_progress steps a \<le> asset_progress steps b"
proof -
  let ?qa = "of_nat a / of_nat steps :: rat" and ?qb = "of_nat b / of_nat steps :: rat"
  have q0: "0 \<le> ?qa" by simp
  have "?qa \<le> ?qb" using assms by (simp add: divide_right_mono)
  with q0 have f1: "fl ?qa \<le> fl ?qb" by (rule fl_mono)
  have n1: "0 \<le> fl ?qa" using q0 by (rule fl_nonneg)
  from f1 have m: "fl ?qa * 80 \<le> fl ?qb * 80" by simp
  have m0: "0 \<le> fl ?qa * 80" using n1 by simp
  from m0 m have f2: "fl (fl ?qa * 80) \<le> fl (fl ?qb * 80)" by (rule fl_mono)
  have n2: "0 \<le> fl (fl ?qa * 80)" using m0 by (rule fl_nonneg)
  from f2 have s: "10 + fl (fl ?qa * 80) \<le> 10 + fl (fl ?qb * 80)" by simp
  have s0: "0 \<le> 10 + fl (fl ?qa * 80)" using n2 by simp
  from s0 s show ?thesis unfolding asset_progress_def by (rule fl_mono)
qed

lemma asset_progress_end: "asset_progress steps steps \<le> 90"
proof -
  let ?q = "of_nat steps / of_nat steps :: rat"
  have q0: "0 \<le> ?q" by simp
  have "?q \<le> 1" by simp
  with q0 have "fl ?q \<le> fl 1" by (rule fl_mono)
  then have f1: "fl ?q \<le> 1" by (simp only: fl_numerals)
  have n1: "0 \<le> fl ?q" using q0 by (rule fl_nonneg)
  from f1 have m: "fl ?q * 80 \<le> 80" by simp
  have m0: "0 \<le> fl ?q * 80" using n1 by simp
  from m0 m have "fl (fl ?q * 80) \<le> fl 80" by (rule fl_mono)
  then have f2: "fl (fl ?q * 80) \<le> 80" by (simp only: fl_numerals)
  have n2: "0 \<le> fl (fl ?q * 80)" using m0 by (rule fl_nonneg)
  from f2 have s: "10 + fl (fl ?q * 80) \<le> 90" by simp
  have s0: "0 \<le> 10 + fl (fl ?q * 80)" using n2 by simp
  from s0 s have "fl (10 + fl (fl ?q * 80)) \<le> fl 90" by (rule fl_mono)
  then show ?thesis unfolding asset_progress_def by (simp only: fl_numerals)
qed

lemma asset_progress_ge: "10 \<le> asset_progress steps c"
proof -
  let ?q = "of_nat c / of_nat steps :: rat"
  have "0 \<le> ?q" by simp
  then have "0 \<le> fl ?q" by (rule fl_nonneg)
  then have "0 \<le> fl ?q * 80" by simp
  then have "0 \<le> fl (fl ?q * 80)" by (rule fl_nonneg)
  then have "10 \<le> 10 + fl (fl ?q * 80)" by simp
  then have "fl 10 \<le> fl (10 + fl (fl ?q * 80))" by (intro fl_mono) simp_all
  then show ?thesis unfolding asset_progress_def by (simp only: fl_numerals)
qed

lemma asset_progress_0: "asset_progress steps 0 = 10"
  by (simp add: asset_progress_def fl_0 fl_numerals)

text \<open>
  With three slides the asset updates carry the binary64 values that print as
  23.333333333333332, 36.666666666666664, 50, 63.33333333333333, 76.66666666666667 and 90;
  the first is not 70/3.
\<close>

lemma asset_progress_three_slides:
  "asset_progress 6 1 = 6567749456581973 / 281474976710656"
  "asset_progress 6 2 = 5160374573028693 / 140737488355328"
  "asset_progress 6 3 = 50"
  "asset_progress 6 4 = 4456687131252053 / 70368744177664"
  "asset_progress 6 5 = 5394937053620907 / 70368744177664"
  "asset_progress 6 6 = 90"
  by code_simp+

lemma asset_updates_sorted:
  "cur + 2 * length ss = steps \<Longrightarrow> sorted (progress_values (asset_progress steps steps) rest) \<Longrightarrow>
   sorted (progress_values (asset_progress steps cur) (asset_updates steps cur ss @ rest))"
proof (induction ss arbitrary: cur)
  case Nil
  then show ?case by simp
next
  case (Cons s ss)
  have ih: "sorted (progress_values (asset_progress steps (Suc (Suc cur)))
              (asset_updates steps (Suc (Suc cur)) ss @ rest))"
    using Cons.prems by (intro Cons.IH) simp_all
  have m1: "asset_progress steps cur \<le> asset_progress steps (Suc cur)"
    and m2: "asset_progress steps (Suc cur) \<le> asset_progress steps (Suc (Suc cur))"
    by (simp_all add: asset_progress_mono)
  from ih m1 m2 show ?case
    by (simp add: progress_update_def sorted_progress_values_Cons sorted2 del: sorted_wrt.simps)
qed

lemma asset_progress_bounds: "c \<le> steps \<Longrightarrow> within_0_100 (asset_progress steps c)"
proof -
  assume "c \<le> steps"
  then have "asset_progress steps c \<le> asset_progress steps steps"
    by (rule asset_progress_mono)
  with asset_progress_end[of steps] asset_progress_ge[of steps c] show ?thesis
    by (simp add: within_0_100_def)
qed

lemma asset_updates_bounds:
  "cur + 2 * length ss = steps \<Longrightarrow> list_all within_0_100 (progress_values (asset_progress steps steps) rest) \<Longrightarrow>
   list_all within_0_100 (progress_values (asset_progress steps cur) (asset_updates steps cur ss @ rest))"
proof (induction ss arbitrary: cur)
  case Nil
  then show ?case by simp
next
  case (Cons s ss)
  have ih: "list_all within_0_100
              (progress_values (asset_progress steps (Suc (Suc cur)))
                 (asset_updates steps (Suc (Suc cur)) ss @ rest))"
    using Cons.prems by (intro Cons.IH) simp_all
  have le: "cur \<le> steps" "Suc cur \<le> steps"
    using Cons.prems(1) by simp_all
  have "within_0_100 (asset_progress steps cur)" "within_0_100 (asset_progress steps (Suc cur))"
    using le by (simp_all add: asset_progress_bounds)
  with ih show ?case
    by (simp add: progress_update_def)
qed

lemma presentation_steps_sorted: "sorted (progress_values 0 (presentation_steps topic url slides))"
proof -
  let ?n = "length slides * 2"
  let ?tail = "[progress_update 95 ''Assembling presentation...'',
        completed_update ''Presentation is ready!''
          \<lparr>res_type = view, payload = topic @ '' '' @ url\<rparr>]"
  have t: "sorted (progress_values (asset_progress ?n ?n) ?tail)"
    using asset_progress_end[of ?n]
    by (simp add: progress_update_def completed_update_def)
  have "sorted (progress_values (asset_progress ?n 0) (asset_updates ?n 0 slides @ ?tail))"
    using t by (intro asset_updates_sorted) simp_all
  moreover have "asset_progress ?n 0 = 10"
    by (rule asset_progress_0)
  ultimately show ?thesis
    by (simp add: presentation_steps_def progress_update_def
          sorted_progress_values_Cons del: sorted_wrt.simps)
qed

lemma presentation_steps_bounds:
  "list_all within_0_100 (progress_values 0 (presentation_steps topic url slides))"
proof -
  let ?n = "length slides * 2"
  let ?tail = "[progress_update 95 ''Assembling presentation...'',
        completed_update ''Presentation is ready!''
          \<lparr>res_type = view, payload = topic @ '' '' @ url\<rparr>]"
  have t: "list_all within_0_100 (progress_values (asset_progress ?n ?n) ?tail)"
    using asset_progress_end[of ?n] asset_progress_ge[of ?n ?n]
    by (simp add: progress_update_def completed_update_def within_0_100_def)
  have "list_all within_0_100 (progress_values (asset_progress ?n 0) (asset_updates ?n 0 slides @ ?tail))"
    using t by (intro asset_updates_bounds) simp_all
  moreover have "asset_progress ?n 0 = 10"
    by (rule asset_progress_0)
  ultimately show ?thesis
    by (simp add: presentation_steps_def progress_update_def within_0_100_def)
qed

lemma presentation_updates_sorted:
  "sorted (progress_values 0 (presentation_updates topic url slides e))"
proof (cases e)
  case PresentationDone
  then show ?thesis by (simp add: presentation_updates_def presentation_steps_sorted)
next
  case (PresentationThrew k m)
  have "sorted (progress_values 0 (take k (presentation_steps topic url slides)
          @ [failed_update (''Failed to create presentation: '' @ m)]))"
    by (intro sorted_progress_values_snoc_same presentation_steps_sorted)
       (simp add: failed_update_def)
  with PresentationThrew show ?thesis by (simp add: presentation_updates_def)
qed

lemma presentation_updates_bounds:
  "list_all within_0_100 (progress_values 0 (presentation_updates topic url slides e))"
proof (cases e)
  case PresentationDone
  then show ?thesis by (simp add: presentation_updates_def presentation_steps_bounds)
next
  case (PresentationThrew k m)
  have "list_all within_0_100 (progress_values 0 (take k (presentation_steps topic url slides)
          @ [failed_update (''Failed to create presentation: '' @ m)]))"
    by (intro list_all_progress_values_snoc_same presentation_steps_bounds)
       (simp add: failed_update_def)
  with PresentationThrew show ?thesis by (simp add: presentation_updates_def)
qed

subsection \<open>Claims about the Background Task Tracker\<close>

text \<open>
  C8. For the task of a video-generation or a presentation-generation execution, whatever
  the number of polls, the slides, and the point where the execution fails or completes:
  the progress the tracker shows for the task after its creation and after each of the
  execution's updates is the sequence \<open>progress_values\<close>, which never decreases and
  stays within 0 and 100, up to the terminal update and beyond it. The presentation's
  values are the rounded ones the JavaScript arithmetic gives.
\<close>

theorem background_task_progress_monotone:
  "progress_history tid (video_updates apiKey polls e) (video_start tid now tasks) =
     map Some (progress_values 5 (video_updates apiKey polls e))
   \<and> sorted (progress_values 5 (video_updates apiKey polls e))
   \<and> list_all within_0_100 (progress_values 5 (video_updates apiKey polls e))
   \<and> progress_history tid (presentation_updates topic url slides e') (presentation_start tid now tasks) =
     map Some (progress_values 0 (presentation_updates topic url slides e'))
   \<and> sorted (progress_values 0 (presentation_updates topic url slides e'))
   \<and> list_all within_0_100 (progress_values 0 (presentation_updates topic url slides e'))"
proof -
  have v1: "progress_history tid (video_updates apiKey polls e) (video_start tid now tasks) =
     map Some (progress_values 5 (video_updates apiKey polls e))"
    using progress_history_head
      [of "(newTask ''generate_video'' 5 ''Starting video generation...'')\<lparr>task_id := tid, task_timestamp := now\<rparr>"
          tid "video_updates apiKey polls e" tasks]
    by (simp add: video_start_def addTask_def newTask_def)
  have v2: "sorted (progress_values 5 (video_updates apiKey polls e))"
    unfolding video_updates_def
    by (intro video_poll_sorted video_final_progress) simp
  have v3: "list_all within_0_100 (progress_values 5 (video_updates apiKey polls e))"
    unfolding video_updates_def
    by (intro video_poll_bounds video_final_progress) (simp_all add: within_0_100_def)
  have p1: "progress_history tid (presentation_updates topic url slides e') (presentation_start tid now tasks) =
     map Some (progress_values 0 (presentation_updates topic url slides e'))"
    using progress_history_head
      [of "(newTask ''create_business_presentation'' 0 ''Generating presentation outline...'')\<lparr>task_id := tid, task_timestamp := now\<rparr>"
          tid "presentation_updates topic url slides e'" tasks]
    by (simp add: presentation_start_def addTask_def newTask_def)
  from v1 v2 v3 p1 presentation_updates_sorted presentation_updates_bounds show ?thesis
    by blast
qed


text \<open>
  C10. \<^verbatim>\<open>clearCompletedTasks\<close> removes the failed tasks as well as the completed ones:
  it keeps exactly the running tasks, in their order, each as it was.
\<close>

theorem clearCompletedTasks_keeps_running:
  "clearCompletedTasks tasks = filter (\<lambda>t. status t \<noteq> completed \<and> status t \<noteq> failed) tasks
   \<and> subseq (clearCompletedTasks tasks) tasks
   \<and> (\<forall>t \<in> set tasks. (t \<in> set (clearCompletedTasks tasks)) = (status t = running))
   \<and> (\<forall>t \<in> set (clearCompletedTasks tasks). t \<in> set tasks \<and> status t = running)"
proof -
  have "subseq (clearCompletedTasks tasks) tasks"
    by (simp add: clearCompletedTasks_def)
  moreover have "\<forall>t \<in> set tasks. (t \<in> set (clearCompletedTasks tasks)) = (status t = running)"
    by (simp add: clearCompletedTasks_def)
  moreover have "\<forall>t \<in> set (clearCompletedTasks tasks). t \<in> set tasks \<and> status t = running"
    by (simp add: clearCompletedTasks_def)
  ultimately show ?thesis
    using clear_char[of tasks] by blast
qed


theorem clearCompletedTasks_keeps_running_witness:
  "clearCompletedTasks
     [(newTask ''generate_video'' 40 ''Processing video...'')\<lparr>task_id := ''a''\<rparr>,
      (newTask ''generate_video'' 25 ''Failed to generate video: x'')\<lparr>task_id := ''b'', status := failed\<rparr>,
      (newTask ''create_business_presentation'' 100 ''Presentation is ready!'')
        \<lparr>task_id := ''c'', status := completed\<rparr>,
      (newTask ''create_business_presentation'' 10 ''Generating assets...'')\<lparr>task_id := ''d''\<rparr>] =
   [(newTask ''generate_video'' 40 ''Processing video...'')\<lparr>task_id := ''a''\<rparr>,
    (newTask ''create_business_presentation'' 10 ''Generating assets...'')\<lparr>task_id := ''d''\<rparr>]"
  using clearCompletedTasks_keeps_running
    [of "[(newTask ''generate_video'' 40 ''Processing video...'')\<lparr>task_id := ''a''\<rparr>,
      (newTask ''generate_video'' 25 ''Failed to generate video: x'')\<lparr>task_id := ''b'', status := failed\<rparr>,
      (newTask ''create_business_presentation'' 100 ''Presentation is ready!'')
        \<lparr>task_id := ''c'', status := completed\<rparr>,
      (newTask ''create_business_presentation'' 10 ''Generating assets...'')\<lparr>task_id := ''d''\<rparr>]"]
  by (simp add: newTask_def)

section \<open>Properties of the keep-alive driver\<close>

lemma keepalive_run_Cons: "keepalive_run (e # evs) k = keepalive_run evs (keepalive_step k e)"
  by (simp add: keepalive_run_def)

lemma keepalive_not_connected_run:
  "client_status (client k) \<noteq> st_connected \<Longrightarrow> StatusChange st_connected \<notin> set evs \<Longrightarrow>
   sent (client (keepalive_run evs k)) =
     sent (client k) @ concat (map (\<lambda>e. case e of OtherSend out \<Rightarrow> [out] | _ \<Rightarrow> []) evs)"
proof (induction evs arbitrary: k)
  case Nil
  then show ?case by (simp add: keepalive_run_def)
next
  case (Cons e evs)
  have st: "client_status (client (keepalive_step k e)) \<noteq> st_connected"
    using Cons.prems
    by (cases e) (auto simp: keepAliveCallback_def startBackgroundTasks_def stopBackgroundTasks_def)
  have "sent (client (keepalive_run evs (keepalive_step k e))) =
        sent (client (keepalive_step k e)) @ concat (map (\<lambda>e. case e of OtherSend out \<Rightarrow> [out] | _ \<Rightarrow> []) evs)"
    using st Cons.prems(2) by (intro Cons.IH) simp_all
  moreover have "sent (client (keepalive_step k e)) =
        sent (client k) @ (case e of OtherSend out \<Rightarrow> [out] | _ \<Rightarrow> [])"
    using Cons.prems(1)
    by (cases e) (auto simp: keepAliveCallback_def startBackgroundTasks_def stopBackgroundTasks_def)
  ultimately show ?case by (simp add: keepalive_run_def)
qed

lemma keepalive_cleared_run:
  "\<not> keepAliveInterval k \<Longrightarrow> SetConnected True \<notin> set evs \<Longrightarrow>
   sent (client (keepalive_run evs k)) =
     sent (client k) @ concat (map (\<lambda>e. case e of OtherSend out \<Rightarrow> [out] | _ \<Rightarrow> []) evs)"
proof (induction evs arbitrary: k)
  case Nil
  then show ?case by (simp add: keepalive_run_def)
next
  case (Cons e evs)
  have iv: "\<not> keepAliveInterval (keepalive_step k e)"
    using Cons.prems
    by (cases e) (auto simp: startBackgroundTasks_def stopBackgroundTasks_def)
  have "sent (client (keepalive_run evs (keepalive_step k e))) =
        sent (client (keepalive_step k e)) @ concat (map (\<lambda>e. case e of OtherSend out \<Rightarrow> [out] | _ \<Rightarrow> []) evs)"
    using iv Cons.prems(2) by (intro Cons.IH) simp_all
  moreover have "sent (client (keepalive_step k e)) =
        sent (client k) @ (case e of OtherSend out \<Rightarrow> [out] | _ \<Rightarrow> [])"
    using Cons.prems(1)
    by (cases e) (auto simp: startBackgroundTasks_def stopBackgroundTasks_def)
  ultimately show ?case by (simp add: keepalive_run_def)
qed

lemma keepalive_connected_run:
  "keepAliveInterval k \<Longrightarrow> client_status (client k) = st_connected \<Longrightarrow>
   list_all ticks_and_sends evs \<Longrightarrow>
   sent (client (keepalive_run evs k)) =
     sent (client k) @ map (\<lambda>e. case e of OtherSend out \<Rightarrow> out | _ \<Rightarrow> RealtimeInput [silentFrame]) evs"
proof (induction evs arbitrary: k)
  case Nil
  then show ?case by (simp add: keepalive_run_def)
next
  case (Cons e evs)
  from Cons.prems(3) have e: "ticks_and_sends e" and rest: "list_all ticks_and_sends evs"
    by simp_all
  have iv: "keepAliveInterval (keepalive_step k e)"
    and st: "client_status (client (keepalive_step k e)) = st_connected"
    using Cons.prems(1,2) e
    by (cases e; simp add: keepAliveCallback_def sendRealtimeInput_def)+
  have "sent (client (keepalive_run evs (keepalive_step k e))) =
        sent (client (keepalive_step k e))
        @ map (\<lambda>e. case e of OtherSend out \<Rightarrow> out | _ \<Rightarrow> RealtimeInput [silentFrame]) evs"
    using iv st rest by (rule Cons.IH)
  moreover have "sent (client (keepalive_step k e)) =
        sent (client k) @ [case e of OtherSend out \<Rightarrow> out | _ \<Rightarrow> RealtimeInput [silentFrame]]"
    using Cons.prems(1,2) e
    by (cases e) (simp_all add: keepAliveCallback_def sendRealtimeInput_def)
  ultimately show ?case by (simp add: keepalive_run_Cons)
qed

lemma set_connected:
  "keepAliveInterval (keepalive_step k (SetConnected True))"
  "\<not> keepAliveInterval (keepalive_step k (SetConnected False))"
  "client (keepalive_step k (SetConnected b)) = client k"
  by (simp_all add: startBackgroundTasks_def stopBackgroundTasks_def)

lemma keepalive_session_run:
  assumes "client_status (client k) = st_connected" and "list_all ticks_and_sends evs"
  shows "sent (client (keepalive_run (SetConnected True # evs) k)) =
     sent (client k) @ map (\<lambda>e. case e of OtherSend out \<Rightarrow> out | _ \<Rightarrow> RealtimeInput [silentFrame]) evs"
proof -
  let ?k = "keepalive_step k (SetConnected True)"
  have "sent (client (keepalive_run evs ?k)) =
     sent (client ?k) @ map (\<lambda>e. case e of OtherSend out \<Rightarrow> out | _ \<Rightarrow> RealtimeInput [silentFrame]) evs"
    using assms by (intro keepalive_connected_run) (simp_all add: startBackgroundTasks_def)
  then show ?thesis by (simp add: keepalive_run_Cons startBackgroundTasks_def stopBackgroundTasks_def)
qed

lemma keepalive_left_run:
  assumes "SetConnected True \<notin> set evs"
  shows "sent (client (keepalive_run (SetConnected False # evs) k)) =
     sent (client k) @ concat (map (\<lambda>e. case e of OtherSend out \<Rightarrow> [out] | _ \<Rightarrow> []) evs)"
proof -
  let ?k = "keepalive_step k (SetConnected False)"
  have "sent (client (keepalive_run evs ?k)) =
     sent (client ?k) @ concat (map (\<lambda>e. case e of OtherSend out \<Rightarrow> [out] | _ \<Rightarrow> []) evs)"
    using assms by (intro keepalive_cleared_run) (simp_all add: stopBackgroundTasks_def)
  then show ?thesis by (simp add: keepalive_run_Cons startBackgroundTasks_def stopBackgroundTasks_def)
qed

subsection \<open>Claim about the keep-alive driver\<close>

text \<open>
  C7 (amended). Entering the connected state sets the keep-alive interval and leaving it
  clears the interval, neither sending anything. While the session is connected, that is
  from the entering on, with the client's status connected, every 30-second tick sends one
  silent audio frame (320 zero bytes, base64, tagged audio/pcm;rate=16000) on the client,
  whatever else is sent on the client between the ticks. A tick at which the client's
  status is not connected sends nothing, a run in which the client never becomes connected
  carries no keep-alive frame, and once the connected state is left no tick sends anything
  until it is entered again.
\<close>

theorem keepalive_sends_whenever_connected:
  "keepAliveInterval (keepalive_step k (SetConnected True))
   \<and> \<not> keepAliveInterval (keepalive_step k (SetConnected False))
   \<and> client (keepalive_step k (SetConnected b)) = client k
   \<and> (client_status (client k) = st_connected \<and> list_all ticks_and_sends evs \<longrightarrow>
        sent (client (keepalive_run (SetConnected True # evs) k)) =
          sent (client k)
          @ map (\<lambda>e. case e of OtherSend out \<Rightarrow> out | _ \<Rightarrow> RealtimeInput [silentFrame]) evs)
   \<and> (keepAliveInterval k \<and> client_status (client k) = st_connected \<longrightarrow>
        sent (client (keepalive_step k Tick)) = sent (client k) @ [RealtimeInput [silentFrame]])
   \<and> (client_status (client k) \<noteq> st_connected \<longrightarrow> keepalive_step k Tick = k)
   \<and> (client_status (client k) \<noteq> st_connected \<and> StatusChange st_connected \<notin> set evs \<longrightarrow>
        sent (client (keepalive_run evs k)) =
          sent (client k) @ concat (map (\<lambda>e. case e of OtherSend out \<Rightarrow> [out] | _ \<Rightarrow> []) evs))
   \<and> (\<not> keepAliveInterval k \<longrightarrow> keepalive_step k Tick = k)
   \<and> (SetConnected True \<notin> set evs \<longrightarrow>
        sent (client (keepalive_run (SetConnected False # evs) k)) =
          sent (client k) @ concat (map (\<lambda>e. case e of OtherSend out \<Rightarrow> [out] | _ \<Rightarrow> []) evs))
   \<and> mimeType silentFrame = ''audio/pcm;rate=16000''
   \<and> chunk_data silentFrame = btoa (replicate 320 (char_of (0::nat)))"
proof -
  have tick: "keepAliveInterval k \<and> client_status (client k) = st_connected \<longrightarrow>
        sent (client (keepalive_step k Tick)) = sent (client k) @ [RealtimeInput [silentFrame]]"
    by (simp add: keepAliveCallback_def sendRealtimeInput_def)
  have off: "client_status (client k) \<noteq> st_connected \<longrightarrow> keepalive_step k Tick = k"
    by (simp add: keepAliveCallback_def)
  have cleared: "\<not> keepAliveInterval k \<longrightarrow> keepalive_step k Tick = k"
    by simp
  have frame: "mimeType silentFrame = ''audio/pcm;rate=16000''"
    "chunk_data silentFrame = btoa (replicate 320 (char_of (0::nat)))"
    by (simp_all add: silentFrame_def base64SilentChunk_def silentChunk_def)
  from set_connected[of k] keepalive_session_run[of k evs] tick off
    keepalive_not_connected_run[of k evs] cleared keepalive_left_run[of evs k] frame
  show ?thesis by blast
qed

text \<open>
  C7, as stated, fails: between two ticks the microphone path sends an audio chunk, and
  the second tick sends its silent frame all the same.
\<close>

theorem keepalive_sends_despite_activity:
  "sent (client
     (keepalive_run
        [Tick, OtherSend (RealtimeInput [\<lparr>mimeType = ''audio/pcm;rate=16000'', chunk_data = ''AAEC''\<rparr>]), Tick]
        \<lparr>client = \<lparr>client_status = st_connected, sent = []\<rparr>, keepAliveInterval = True\<rparr>)) =
   [RealtimeInput [silentFrame],
    RealtimeInput [\<lparr>mimeType = ''audio/pcm;rate=16000'', chunk_data = ''AAEC''\<rparr>],
    RealtimeInput [silentFrame]]"
  by (simp add: keepalive_run_def keepAliveCallback_def sendRealtimeInput_def)

theorem keepalive_sends_whenever_connected_witness:
  "client_status (client \<lparr>client = \<lparr>client_status = st_connected, sent = []\<rparr>, keepAliveInterval = False\<rparr>) =
     st_connected
   \<and> list_all ticks_and_sends
        [Tick, OtherSend (RealtimeInput [\<lparr>mimeType = ''audio/pcm;rate=16000'', chunk_data = ''AAEC''\<rparr>]), Tick]
   \<and> sent (client
        (keepalive_run
           [SetConnected True, Tick,
            OtherSend (RealtimeInput [\<lparr>mimeType = ''audio/pcm;rate=16000'', chunk_data = ''AAEC''\<rparr>]), Tick]
           \<lparr>client = \<lparr>client_status = st_connected, sent = []\<rparr>, keepAliveInterval = False\<rparr>)) =
       [RealtimeInput [silentFrame],
        RealtimeInput [\<lparr>mimeType = ''audio/pcm;rate=16000'', chunk_data = ''AAEC''\<rparr>],
        RealtimeInput [silentFrame]]
   \<and> sent (client
        (keepalive_run [Tick, Tick]
           \<lparr>client = \<lparr>client_status = st_connected, sent = []\<rparr>, keepAliveInterval = False\<rparr>)) = []
   \<and> sent (client
        (keepalive_run
           [SetConnected False, Tick,
            OtherSend (RealtimeInput [\<lparr>mimeType = ''audio/pcm;rate=16000'', chunk_data = ''AAEC''\<rparr>]), Tick]
           \<lparr>client = \<lparr>client_status = st_connected, sent = []\<rparr>, keepAliveInterval = True\<rparr>)) =
       [RealtimeInput [\<lparr>mimeType = ''audio/pcm;rate=16000'', chunk_data = ''AAEC''\<rparr>]]
   \<and> keepalive_step \<lparr>client = \<lparr>client_status = st_disconnected, sent = []\<rparr>, keepAliveInterval = True\<rparr> Tick =
       \<lparr>client = \<lparr>client_status = st_disconnected, sent = []\<rparr>, keepAliveInterval = True\<rparr>
   \<and> sent (client
        (keepalive_run [SetConnected True, Tick, Tick]
           \<lparr>client = \<lparr>client_status = st_disconnected, sent = []\<rparr>, keepAliveInterval = False\<rparr>)) = []
   \<and> sent (client
        (keepalive_step
           \<lparr>client = \<lparr>client_status = st_connected, sent = []\<rparr>, keepAliveInterval = True\<rparr> Tick)) =
       [RealtimeInput [silentFrame]]
   \<and> keepalive_step
        \<lparr>client = \<lparr>client_status = st_connected, sent = []\<rparr>, keepAliveInterval = False\<rparr> Tick =
       \<lparr>client = \<lparr>client_status = st_connected, sent = []\<rparr>, keepAliveInterval = False\<rparr>"
proof -
  let ?mic = "RealtimeInput [\<lparr>mimeType = ''audio/pcm;rate=16000'', chunk_data = ''AAEC''\<rparr>]"
  let ?k0 = "\<lparr>client = \<lparr>client_status = st_connected, sent = []\<rparr>, keepAliveInterval = False\<rparr>"
  let ?k1 = "\<lparr>client = \<lparr>client_status = st_connected, sent = []\<rparr>, keepAliveInterval = True\<rparr>"
  let ?off = "\<lparr>client = \<lparr>client_status = st_disconnected, sent = []\<rparr>, keepAliveInterval = True\<rparr>"
  let ?off0 = "\<lparr>client = \<lparr>client_status = st_disconnected, sent = []\<rparr>, keepAliveInterval = False\<rparr>"
  have h: "client_status (client ?k0) = st_connected"
    "list_all ticks_and_sends [Tick, OtherSend ?mic, Tick]"
    "SetConnected True \<notin> set [Tick, OtherSend ?mic, Tick]"
    "client_status (client ?off) \<noteq> st_connected"
    "client_status (client ?off0) \<noteq> st_connected"
    "StatusChange st_connected \<notin> set [SetConnected True, Tick, Tick]"
    by simp_all
  from keepalive_sends_whenever_connected[of ?k0 True "[Tick, OtherSend ?mic, Tick]"] h
  have a: "sent (client (keepalive_run (SetConnected True # [Tick, OtherSend ?mic, Tick]) ?k0)) =
          sent (client ?k0)
          @ map (\<lambda>e. case e of OtherSend out \<Rightarrow> out | _ \<Rightarrow> RealtimeInput [silentFrame])
              [Tick, OtherSend ?mic, Tick]"
    by blast
  from keepalive_sends_whenever_connected[of ?k1 True "[Tick, OtherSend ?mic, Tick]"] h
  have b: "sent (client (keepalive_run (SetConnected False # [Tick, OtherSend ?mic, Tick]) ?k1)) =
          sent (client ?k1)
          @ concat (map (\<lambda>e. case e of OtherSend out \<Rightarrow> [out] | _ \<Rightarrow> []) [Tick, OtherSend ?mic, Tick])"
    by blast
  from keepalive_sends_whenever_connected[of ?off True "[]"] h
  have c: "keepalive_step ?off Tick = ?off"
    by blast
  from keepalive_sends_whenever_connected[of ?off0 True "[SetConnected True, Tick, Tick]"] h
  have d: "sent (client (keepalive_run [SetConnected True, Tick, Tick] ?off0)) =
          sent (client ?off0)
          @ concat (map (\<lambda>e. case e of OtherSend out \<Rightarrow> [out] | _ \<Rightarrow> []) [SetConnected True, Tick, Tick])"
    by blast
  have e: "sent (client (keepalive_run [Tick, Tick] ?k0)) = []"
    by (simp add: keepalive_run_def)
  have h': "keepAliveInterval ?k1" "client_status (client ?k1) = st_connected"
    "\<not> keepAliveInterval ?k0"
    by simp_all
  from keepalive_sends_whenever_connected[of ?k1 True "[]"] h'
  have f: "sent (client (keepalive_step ?k1 Tick)) = sent (client ?k1) @ [RealtimeInput [silentFrame]]"
    by blast
  from keepalive_sends_whenever_connected[of ?k0 True "[]"] h'
  have g: "keepalive_step ?k0 Tick = ?k0"
    by blast
  have f': "sent (client (keepalive_step ?k1 Tick)) = [RealtimeInput [silentFrame]]"
    using f by simp
  from h a b c d e f' g show ?thesis by (simp add: keepAliveCallback_def sendRealtimeInput_def)
qed

section \<open>Properties of the poller\<close>

lemma poll_run_Cons: "poll_run toolName (ev # evs) p = poll_run toolName evs (poll_step toolName p ev)"
  by (simp add: poll_run_def)

lemma timer_only_run:
  "intervalSet p \<Longrightarrow> attempts p < maxAttempts \<Longrightarrow>
   poll_run toolName (replicate n TimerFires) p =
     p\<lparr>pendingRequests := pendingRequests p + n, requestsIssued := requestsIssued p + n\<rparr>"
proof (induction n arbitrary: p)
  case 0
  then show ?case by (simp add: poll_run_def)
next
  case (Suc n)
  let ?q = "p\<lparr>pendingRequests := pendingRequests p + 1, requestsIssued := requestsIssued p + 1\<rparr>"
  have step: "poll_step toolName p TimerFires = ?q"
    using Suc.prems by (simp add: poll_tick_def)
  have "poll_run toolName (replicate n TimerFires) ?q =
        ?q\<lparr>pendingRequests := pendingRequests ?q + n, requestsIssued := requestsIssued ?q + n\<rparr>"
    using Suc.prems by (intro Suc.IH) simp_all
  with step show ?case by (simp add: poll_run_Cons)
qed

text \<open>
  When every status request settles before the timer fires again, the poller behaves as
  its comment says: at most 15 requests, at most one notification, and after 16 firings
  the interval is cleared and exactly one notification (an outcome or the timeout) has been
  emitted.
\<close>

lemma terminal_cases:
  obtains (final) st msg where "terminal_status r = Some (st, msg)" | (pending) "terminal_status r = None"
  by (cases "terminal_status r") auto

lemma prompt_pair:
  assumes "pendingRequests p = 0" and "requestsIssued p = attempts p" and "attempts p \<le> maxAttempts"
  shows "pendingRequests (poll_settle toolName r (poll_tick toolName p)) = 0
       \<and> requestsIssued (poll_settle toolName r (poll_tick toolName p)) =
           attempts (poll_settle toolName r (poll_tick toolName p))
       \<and> attempts (poll_settle toolName r (poll_tick toolName p)) \<le> maxAttempts
       \<and> (intervalSet (poll_settle toolName r (poll_tick toolName p)) \<longrightarrow>
            intervalSet p
            \<and> attempts (poll_settle toolName r (poll_tick toolName p)) = Suc (attempts p)
            \<and> notifications (poll_settle toolName r (poll_tick toolName p)) = notifications p)
       \<and> (\<not> intervalSet (poll_settle toolName r (poll_tick toolName p)) \<longrightarrow>
            (if intervalSet p
             then length (notifications (poll_settle toolName r (poll_tick toolName p))) =
                    Suc (length (notifications p))
             else notifications (poll_settle toolName r (poll_tick toolName p)) = notifications p))"
proof (cases "intervalSet p")
  case False
  with assms show ?thesis by (simp add: poll_tick_def poll_settle_def)
next
  case True
  show ?thesis
  proof (cases "attempts p \<ge> maxAttempts")
    case full: True
    with True assms show ?thesis
      by (simp add: poll_tick_def poll_settle_def notifications_def send_def)
  next
    case False
    with True assms show ?thesis
      by (cases r rule: terminal_cases)
         (simp_all add: poll_tick_def poll_settle_def notifications_def send_def Let_def)
  qed
qed


lemma prompt_run_snoc: "prompt_run (rs @ [r]) = prompt_run rs @ [TimerFires, RequestSettles r]"
  by (induction rs rule: prompt_run.induct) simp_all

lemma poll_run_prompt_snoc:
  "poll_run toolName (prompt_run (rs @ [r])) p =
     poll_settle toolName r (poll_tick toolName (poll_run toolName (prompt_run rs) p))"
  by (simp add: prompt_run_snoc poll_run_def)

lemma prompt_run_invariant:
  "pendingRequests (poll_run toolName (prompt_run rs) (pollForResult c)) = 0
   \<and> requestsIssued (poll_run toolName (prompt_run rs) (pollForResult c)) =
       attempts (poll_run toolName (prompt_run rs) (pollForResult c))
   \<and> attempts (poll_run toolName (prompt_run rs) (pollForResult c)) \<le> maxAttempts
   \<and> (intervalSet (poll_run toolName (prompt_run rs) (pollForResult c)) \<longrightarrow>
        attempts (poll_run toolName (prompt_run rs) (pollForResult c)) = length rs
        \<and> notifications (poll_run toolName (prompt_run rs) (pollForResult c)) = sent c)
   \<and> (\<not> intervalSet (poll_run toolName (prompt_run rs) (pollForResult c)) \<longrightarrow>
        length (notifications (poll_run toolName (prompt_run rs) (pollForResult c))) =
          Suc (length (sent c)))"
proof (induction rs rule: rev_induct)
  case Nil
  show ?case
    by (simp add: poll_run_def pollForResult_def notifications_def)
next
  case (snoc r rs)
  let ?p = "poll_run toolName (prompt_run rs) (pollForResult c)"
  let ?q = "poll_settle toolName r (poll_tick toolName ?p)"
  have eq: "poll_run toolName (prompt_run (rs @ [r])) (pollForResult c) = ?q"
    by (rule poll_run_prompt_snoc)
  from snoc have p0: "pendingRequests ?p = 0" and p1: "requestsIssued ?p = attempts ?p"
    and p2: "attempts ?p \<le> maxAttempts" by simp_all
  note pair = prompt_pair[OF p0 p1 p2, of toolName r]
  have i1: "attempts ?q = length (rs @ [r]) \<and> notifications ?q = sent c" if "intervalSet ?q"
  proof -
    from pair that have "intervalSet ?p" "attempts ?q = Suc (attempts ?p)"
      "notifications ?q = notifications ?p" by simp_all
    with snoc show ?thesis by simp
  qed
  have i2: "length (notifications ?q) = Suc (length (sent c))" if "\<not> intervalSet ?q"
  proof (cases "intervalSet ?p")
    case True
    with pair that have "length (notifications ?q) = Suc (length (notifications ?p))" by simp
    with snoc True show ?thesis by simp
  next
    case False
    with pair that have "notifications ?q = notifications ?p" by simp
    with snoc False show ?thesis by simp
  qed
  from pair i1 i2 show ?case unfolding eq by blast
qed

lemma prompt_polling_is_bounded:
  "requestsIssued (poll_run toolName (prompt_run rs) (pollForResult c)) \<le> 15
   \<and> length (notifications (poll_run toolName (prompt_run rs) (pollForResult c)))
       \<le> Suc (length (sent c))
   \<and> (15 < length rs \<longrightarrow>
        \<not> intervalSet (poll_run toolName (prompt_run rs) (pollForResult c))
        \<and> length (notifications (poll_run toolName (prompt_run rs) (pollForResult c))) =
            Suc (length (sent c)))"
proof -
  let ?p = "poll_run toolName (prompt_run rs) (pollForResult c)"
  note inv = prompt_run_invariant[of toolName rs c]
  have a: "requestsIssued ?p \<le> 15"
    using inv by (simp add: maxAttempts_def)
  have b: "length (notifications ?p) \<le> Suc (length (sent c))"
    using inv by (cases "intervalSet ?p") simp_all
  have c: "\<not> intervalSet ?p" if "15 < length rs"
  proof
    assume "intervalSet ?p"
    with inv have "attempts ?p = length rs" "attempts ?p \<le> maxAttempts" by simp_all
    with that show False by (simp add: maxAttempts_def)
  qed
  from a b c inv show ?thesis by blast
qed


lemma two_outcome_notifications:
  "length (notifications
     (poll_run toolName
        [TimerFires, TimerFires,
         RequestSettles (OkJson (Some \<lparr>sd_status = Some ''success'', sd_message = ''sent''\<rparr>)),
         RequestSettles (OkJson (Some \<lparr>sd_status = Some ''success'', sd_message = ''sent''\<rparr>))]
        (pollForResult c))) = length (sent c) + 2"
  by (simp add: poll_run_def poll_tick_def poll_settle_def pollForResult_def maxAttempts_def
        terminal_status_def truthy_def notifications_def send_def Let_def)

subsection \<open>Claim about the poller\<close>

text \<open>
  C9 at a failing input: a status endpoint that does not answer. The counter
  \<^verbatim>\<open>attempts\<close> is incremented only after a request has settled, so requests that
  stay pending are not counted: after \<open>n\<close> firings of the timer, \<open>n\<close> requests have been
  issued (16 after 16 firings, more than \<^verbatim>\<open>maxAttempts\<close>), the interval is still
  set and no timeout notification has been emitted.
\<close>

theorem unsettled_requests_are_not_counted:
  "requestsIssued (poll_run toolName (replicate n TimerFires) (pollForResult c)) = n
   \<and> intervalSet (poll_run toolName (replicate n TimerFires) (pollForResult c))
   \<and> notifications (poll_run toolName (replicate n TimerFires) (pollForResult c)) = sent c
   \<and> requestsIssued (poll_run toolName (replicate 16 TimerFires) (pollForResult c)) = 16"
proof -
  have "poll_run toolName (replicate m TimerFires) (pollForResult c) =
     (pollForResult c)\<lparr>pendingRequests := pendingRequests (pollForResult c) + m,
                       requestsIssued := requestsIssued (pollForResult c) + m\<rparr>" for m
    by (intro timer_only_run) (simp_all add: pollForResult_def maxAttempts_def)
  then show ?thesis
    by (simp add: pollForResult_def notifications_def)
qed


section \<open>Properties of the tool dispatcher and the confirmation gate\<close>










lemma quiet_step:
  "confirmation d = None \<Longrightarrow> awaiting d = [] \<Longrightarrow> dispatch_step d ev = d"
  by (cases ev) (simp_all add: executor_returns_def handleConfirm_def handleCancel_def)

lemma quiet_run:
  "confirmation d = None \<Longrightarrow> awaiting d = [] \<Longrightarrow> dispatch_run evs d = d"
  by (induction evs) (simp_all add: dispatch_run_def quiet_step)





















subsection \<open>Claims about the tool dispatcher and the confirmation gate\<close>

text \<open>
  C1 at a failing input: a batch of one call of an administrator-restricted tool, from a
  signed-in caller who is not the administrator. The loop pushes the restricted entry and
  goes on to the next call without the test that sends the array, which only the ends of
  \<^verbatim>\<open>executeTool\<close> and \<^verbatim>\<open>onCancel\<close> make. All N = 1 entries are collected, nothing
  is pending, and whatever happens afterwards no tool response is ever sent.
\<close>

theorem restricted_batch_is_never_answered:
  "toolResponsesSent
     (dispatch_run evs
        (onToolCall (Some \<lparr>user_id = uid, email = Some ''guest@example.com''\<rparr>) allTools now
           [\<lparr>fc_id = ''1'', fc_name = ''generate_video'', fc_args = args\<rparr>] (idle turns s))) = []
   \<and> functionResponses
       (arrays
          (dispatch_run evs
             (onToolCall (Some \<lparr>user_id = uid, email = Some ''guest@example.com''\<rparr>) allTools now
                [\<lparr>fc_id = ''1'', fc_name = ''generate_video'', fc_args = args\<rparr>] (idle turns s)))
          0) =
     [restrictedResponse \<lparr>fc_id = ''1'', fc_name = ''generate_video'', fc_args = args\<rparr>]
   \<and> batchLength
       (arrays
          (dispatch_run evs
             (onToolCall (Some \<lparr>user_id = uid, email = Some ''guest@example.com''\<rparr>) allTools now
                [\<lparr>fc_id = ''1'', fc_name = ''generate_video'', fc_args = args\<rparr>] (idle turns s)))
          0) = 1"
proof -
  let ?fc = "\<lparr>fc_id = ''1'', fc_name = ''generate_video'', fc_args = args\<rparr>"
  let ?d = "onToolCall (Some \<lparr>user_id = uid, email = Some ''guest@example.com''\<rparr>) allTools now
              [?fc] (idle turns s)"
  have r: "restricted (Some \<lparr>user_id = uid, email = Some ''guest@example.com''\<rparr>) ?fc"
    by (simp add: restricted_def truthy_def ADMIN_ONLY_TOOLS_def ADMIN_EMAIL_def)
  have d: "?d = (idle turns s)\<lparr>toolCallEvents := 1,
             arrays := (arrays (idle turns s))
               (0 := \<lparr>batchLength = 1, functionResponses = [restrictedResponse ?fc]\<rparr>)\<rparr>"
    using r by (simp add: onToolCall_def dispatch_call_def push_def idle_def)
  have q: "confirmation ?d = None" "awaiting ?d = []"
    unfolding d by (simp_all add: idle_def)
  have run: "dispatch_run evs ?d = ?d"
    using q by (rule quiet_run)
  have final: "dispatch_run evs ?d = (idle turns s)\<lparr>toolCallEvents := 1,
             arrays := (arrays (idle turns s))
               (0 := \<lparr>batchLength = 1, functionResponses = [restrictedResponse ?fc]\<rparr>)\<rparr>"
    using run d by simp
  show ?thesis
    by (simp only: final) (simp add: idle_def toolResponsesSent_def)
qed








end
